theory Spec2Isabelle
  imports Complex_Main "HOL-Library.Multiset" "HOL-Library.Monad_Syntax"
begin

section \<open>Data model\<close>

text \<open>
  The elements handed to the resolvers of \<^verbatim>\<open>diacea/experiments.py\<close> are dictionaries
  tagged by their \<^verbatim>\<open>'type'\<close> key.  A rectangle carries \<^verbatim>\<open>id, x, y, width, height\<close>,
  a text carries \<^verbatim>\<open>id, x, y, text\<close> and an arrow carries \<^verbatim>\<open>id, points\<close>
  (the fields of the specification's data model: an arrow has no \<^verbatim>\<open>x\<close> and
  \<^verbatim>\<open>y\<close> of its own, and a point is a pair of coordinates).
  Numbers are modelled as exact reals: rounding of Python floats is outside the model.
\<close>

type_synonym point = "real \<times> real"

record container =
  c_id :: string
  c_x :: real
  c_y :: real
  c_width :: real
  c_height :: real

record label =
  t_id :: string
  t_x :: real
  t_y :: real
  t_text :: string

record connector =
  a_id :: string
  a_points :: "point list"

datatype element = Rectangle container | Text label | Arrow connector

text \<open>
  The dictionaries of the output: a rectangle record has the keys \<^verbatim>\<open>id, type, label\<close>
  and possibly \<^verbatim>\<open>parent\<close> (\<open>None\<close> is the absent key); an arrow record has
  \<^verbatim>\<open>id, type, label, from, to\<close>.
\<close>

datatype relational =
    is_RelRectangle: RelRectangle (r_id: string) (r_label: string) (r_parent: "string option")
  | is_RelArrow: RelArrow (r_id: string) (r_label: string) (r_from: string) (r_to: string)

text \<open>Both \<^verbatim>\<open>min()\<close> of an empty sequence and a failed unpacking raise \<^verbatim>\<open>ValueError\<close>.\<close>

datatype error = ValueError

section \<open>Shared functions\<close>

definition is_rectangle_inside :: "container \<Rightarrow> container \<Rightarrow> bool" where
  "is_rectangle_inside outer inner \<longleftrightarrow>
     c_x outer < c_x inner
     \<and> c_y outer < c_y inner
     \<and> c_x outer + c_width outer > c_x inner + c_width inner
     \<and> c_y outer + c_height outer > c_y inner + c_height inner"

text \<open>\<^verbatim>\<open>_dist\<close> of the source.\<close>

definition dist_sq :: "container \<Rightarrow> point \<Rightarrow> real" where
  "dist_sq rect arrow =
     (c_x rect + c_width rect / 2 - fst arrow)\<^sup>2 + (c_y rect + c_height rect / 2 - snd arrow)\<^sup>2"

definition area :: "container \<Rightarrow> real" where
  "area r = c_width r * c_height r"

text \<open>
  Python's \<^verbatim>\<open>min(xs, key=f)\<close>: the first element with the least key, \<^verbatim>\<open>ValueError\<close>
  on an empty sequence.
\<close>

fun min_from :: "('a \<Rightarrow> real) \<Rightarrow> 'a \<Rightarrow> 'a list \<Rightarrow> 'a" where
  "min_from f best [] = best"
| "min_from f best (x # xs) = min_from f (if f x < f best then x else best) xs"

fun min_key :: "('a \<Rightarrow> real) \<Rightarrow> 'a list \<Rightarrow> error + 'a" where
  "min_key f [] = Inl ValueError"
| "min_key f (x # xs) = Inr (min_from f x xs)"

definition covers :: "container \<Rightarrow> point \<Rightarrow> bool" where
  "covers r p \<longleftrightarrow>
     c_x r \<le> fst p \<and> fst p \<le> c_x r + c_width r
     \<and> c_y r \<le> snd p \<and> snd p \<le> c_y r + c_height r"

definition find_nearest_rectangle :: "point \<Rightarrow> container list \<Rightarrow> error + container" where
  "find_nearest_rectangle p rectangles =
     (let candidates = filter (\<lambda>r. covers r p) rectangles
      in if candidates = [] then min_key (\<lambda>r. dist_sq r p) rectangles
         else min_key area candidates)"

text \<open>The three list comprehensions that split the input by \<^verbatim>\<open>'type'\<close>.\<close>

fun rectangles_of :: "element list \<Rightarrow> container list" where
  "rectangles_of [] = []"
| "rectangles_of (Rectangle r # xs) = r # rectangles_of xs"
| "rectangles_of (_ # xs) = rectangles_of xs"

fun texts_of :: "element list \<Rightarrow> label list" where
  "texts_of [] = []"
| "texts_of (Text t # xs) = t # texts_of xs"
| "texts_of (_ # xs) = texts_of xs"

fun arrows_of :: "element list \<Rightarrow> connector list" where
  "arrows_of [] = []"
| "arrows_of (Arrow a # xs) = a # arrows_of xs"
| "arrows_of (_ # xs) = arrows_of xs"

text \<open>
  \<^verbatim>\<open>rectangles.sort(key=area, reverse=True)\<close>: Python's sort is stable, also
  with \<^verbatim>\<open>reverse=True\<close>, so rectangles of equal area keep their input order.
\<close>

definition sort_by_area :: "container list \<Rightarrow> container list" where
  "sort_by_area rectangles = sort_key (\<lambda>r. - area r) rectangles"

text \<open>The test \<^verbatim>\<open>rect.x < text.x < rect.x + rect.width and rect.y < text.y < ...\<close>.\<close>

definition text_within :: "container \<Rightarrow> label \<Rightarrow> bool" where
  "text_within rect t \<longleftrightarrow>
     c_x rect < t_x t \<and> t_x t < c_x rect + c_width rect
     \<and> c_y rect < t_y t \<and> t_y t < c_y rect + c_height rect"

text \<open>The loop over \<^verbatim>\<open>texts\<close> that stops at the first text within the rectangle.\<close>

definition find_label :: "container \<Rightarrow> label list \<Rightarrow> string" where
  "find_label rect texts =
     (case find (text_within rect) texts of None \<Rightarrow> [] | Some t \<Rightarrow> t_text t)"

text \<open>
  The loop over \<^verbatim>\<open>potential_parent\<close>: one step of it, and the loop from
  \<^verbatim>\<open>parent = None\<close>.
\<close>

definition parent_step :: "container \<Rightarrow> container option \<Rightarrow> container \<Rightarrow> container option" where
  "parent_step rect parent potential_parent =
     (if c_id potential_parent \<noteq> c_id rect
         \<and> is_rectangle_inside potential_parent rect
         \<and> (case parent of None \<Rightarrow> True | Some p \<Rightarrow> is_rectangle_inside p potential_parent)
      then Some potential_parent else parent)"

definition find_parent :: "container \<Rightarrow> container list \<Rightarrow> container option" where
  "find_parent rect rectangles = foldl (parent_step rect) None rectangles"

text \<open>The arrow loop's body: unpack the two points and resolve each.\<close>

definition resolve_arrow :: "container list \<Rightarrow> connector \<Rightarrow> error + relational" where
  "resolve_arrow rectangles arrow =
     (case a_points arrow of
        [start, end] \<Rightarrow>
          (case find_nearest_rectangle start rectangles of
             Inl e \<Rightarrow> Inl e
           | Inr from_rect \<Rightarrow>
               (case find_nearest_rectangle end rectangles of
                  Inl e \<Rightarrow> Inl e
                | Inr to_rect \<Rightarrow>
                    Inr (RelArrow (a_id arrow) [] (c_id from_rect) (c_id to_rect))))
      | _ \<Rightarrow> Inl ValueError)"

text \<open>A loop whose body may raise: the first error ends it.\<close>

fun map_err :: "('a \<Rightarrow> error + 'b) \<Rightarrow> 'a list \<Rightarrow> error + 'b list" where
  "map_err f [] = Inr []"
| "map_err f (x # xs) =
     (case f x of
        Inl e \<Rightarrow> Inl e
      | Inr y \<Rightarrow> (case map_err f xs of Inl e \<Rightarrow> Inl e | Inr ys \<Rightarrow> Inr (y # ys)))"

section \<open>Rules based approach\<close>

definition rect_record :: "container list \<Rightarrow> label list \<Rightarrow> container \<Rightarrow> relational" where
  "rect_record rectangles texts rect =
     RelRectangle (c_id rect) (find_label rect texts)
       (map_option c_id (find_parent rect rectangles))"

definition rule_based_approach :: "element list \<Rightarrow> error + relational list" where
  "rule_based_approach data =
     (let rectangles = sort_by_area (rectangles_of data);
          texts = texts_of data;
          arrows = arrows_of data;
          output = map (rect_record rectangles texts) rectangles
      in case map_err (resolve_arrow rectangles) arrows of
           Inl e \<Rightarrow> Inl e
         | Inr arrow_records \<Rightarrow> Inr (output @ arrow_records))"

text \<open>
  \<^verbatim>\<open>csp_solver\<close> and \<^verbatim>\<open>graph_based_approach\<close> hand the search and the
  iteration order to the libraries \<^verbatim>\<open>constraint\<close> and \<^verbatim>\<open>networkx\<close>, whose
  code is not part of the repository; they are not modelled.
\<close>

section \<open>Imperative approach\<close>

definition convert_arrow :: "element list \<Rightarrow> connector \<Rightarrow> error + relational" where
  "convert_arrow absolute_data item =
     (case a_points item of
        [arrow_start, arrow_end] \<Rightarrow>
          (case min_key (\<lambda>r. dist_sq r arrow_start) (rectangles_of absolute_data) of
             Inl e \<Rightarrow> Inl e
           | Inr from_element \<Rightarrow>
               (case min_key (\<lambda>r. dist_sq r arrow_end) (rectangles_of absolute_data) of
                  Inl e \<Rightarrow> Inl e
                | Inr to_element \<Rightarrow>
                    Inr (RelArrow (a_id item) [] (c_id from_element) (c_id to_element))))
      | _ \<Rightarrow> Inl ValueError)"

fun convert_items :: "element list \<Rightarrow> element list \<Rightarrow> error + relational list" where
  "convert_items absolute_data [] = Inr []"
| "convert_items absolute_data (Rectangle item # rest) =
     (case convert_items absolute_data rest of
        Inl e \<Rightarrow> Inl e
      | Inr out \<Rightarrow>
          Inr (RelRectangle (c_id item) (find_label item (texts_of absolute_data)) (Some []) # out))"
| "convert_items absolute_data (Text item # rest) = convert_items absolute_data rest"
| "convert_items absolute_data (Arrow item # rest) =
     (case convert_arrow absolute_data item of
        Inl e \<Rightarrow> Inl e
      | Inr r \<Rightarrow>
          (case convert_items absolute_data rest of
             Inl e \<Rightarrow> Inl e
           | Inr out \<Rightarrow> Inr (r # out)))"

definition convert_to_relative :: "element list \<Rightarrow> error + relational list" where
  "convert_to_relative absolute_data = convert_items absolute_data absolute_data"

section \<open>QuadTree solver\<close>

text \<open>
  The items of the index are the elements with an \<^verbatim>\<open>'x'\<close> and a \<^verbatim>\<open>'y'\<close> key:
  rectangles and texts.
\<close>

datatype positioned = PosRectangle container | PosText label

fun positioned_of :: "element list \<Rightarrow> positioned list" where
  "positioned_of [] = []"
| "positioned_of (Rectangle r # xs) = PosRectangle r # positioned_of xs"
| "positioned_of (Text t # xs) = PosText t # positioned_of xs"
| "positioned_of (Arrow a # xs) = positioned_of xs"

fun item_x :: "positioned \<Rightarrow> real" where
  "item_x (PosRectangle r) = c_x r"
| "item_x (PosText t) = t_x t"

fun item_y :: "positioned \<Rightarrow> real" where
  "item_y (PosRectangle r) = c_y r"
| "item_y (PosText t) = t_y t"

text \<open>\<^verbatim>\<open>item['x'] + item.get('width', 0)\<close> and \<^verbatim>\<open>item['y'] + item.get('height', 0)\<close>.\<close>

fun item_right :: "positioned \<Rightarrow> real" where
  "item_right (PosRectangle r) = c_x r + c_width r"
| "item_right (PosText t) = t_x t + 0"

fun item_bottom :: "positioned \<Rightarrow> real" where
  "item_bottom (PosRectangle r) = c_y r + c_height r"
| "item_bottom (PosText t) = t_y t + 0"

text \<open>The class \<^verbatim>\<open>Rectangle\<close> of the quadtree (not the element of that name).\<close>

record region =
  q_x :: real
  q_y :: real
  q_w :: real
  q_h :: real

definition contains :: "region \<Rightarrow> positioned \<Rightarrow> bool" where
  "contains self item \<longleftrightarrow>
     q_x self \<le> item_x item \<and> item_x item < q_x self + q_w self
     \<and> q_y self \<le> item_y item \<and> item_y item < q_y self + q_h self"

definition intersects :: "region \<Rightarrow> region \<Rightarrow> bool" where
  "intersects self other \<longleftrightarrow>
     \<not> (q_x self + q_w self \<le> q_x other
        \<or> q_x other + q_w other \<le> q_x self
        \<or> q_y self + q_h self \<le> q_y other
        \<or> q_y other + q_h other \<le> q_y self)"

text \<open>
  The class \<^verbatim>\<open>QuadTree\<close>: the flag \<^verbatim>\<open>divided\<close> is the constructor, and only a
  divided node has the four children.
\<close>

datatype quadtree =
    Undivided (boundary: region) (capacity: nat) (items: "positioned list")
  | Divided (boundary: region) (capacity: nat) (items: "positioned list")
      (northeast: quadtree) (northwest: quadtree) (southeast: quadtree) (southwest: quadtree)

fun divided :: "quadtree \<Rightarrow> bool" where
  "divided (Undivided _ _ _) = False"
| "divided (Divided _ _ _ _ _ _ _) = True"

definition ne_region :: "region \<Rightarrow> region" where
  "ne_region b = \<lparr>q_x = q_x b + q_w b / 2, q_y = q_y b, q_w = q_w b / 2, q_h = q_h b / 2\<rparr>"

definition nw_region :: "region \<Rightarrow> region" where
  "nw_region b = \<lparr>q_x = q_x b, q_y = q_y b, q_w = q_w b / 2, q_h = q_h b / 2\<rparr>"

definition se_region :: "region \<Rightarrow> region" where
  "se_region b =
     \<lparr>q_x = q_x b + q_w b / 2, q_y = q_y b + q_h b / 2, q_w = q_w b / 2, q_h = q_h b / 2\<rparr>"

definition sw_region :: "region \<Rightarrow> region" where
  "sw_region b = \<lparr>q_x = q_x b, q_y = q_y b + q_h b / 2, q_w = q_w b / 2, q_h = q_h b / 2\<rparr>"

definition subdivide :: "quadtree \<Rightarrow> quadtree" where
  "subdivide self =
     Divided (boundary self) (capacity self) (items self)
       (Undivided (ne_region (boundary self)) (capacity self) [])
       (Undivided (nw_region (boundary self)) (capacity self) [])
       (Undivided (se_region (boundary self)) (capacity self) [])
       (Undivided (sw_region (boundary self)) (capacity self) [])"

fun append_item :: "positioned \<Rightarrow> quadtree \<Rightarrow> quadtree" where
  "append_item item (Undivided b c its) = Undivided b c (its @ [item])"
| "append_item item (Divided b c its ne nw se sw) = Divided b c (its @ [item]) ne nw se sw"

text \<open>
  \<^verbatim>\<open>QuadTree.insert\<close> (here \<open>insert_qt\<close>) mutates the tree and returns a flag; the model returns the flag
  and the tree after the call.  The recursion is not structural (a full leaf is subdivided
  and the item is inserted into the fresh children), so a call that never returns is the
  value \<open>None\<close>.  The \<^verbatim>\<open>or\<close> chain stops at the first child that returns true.
\<close>

partial_function (option) insert_qt :: "positioned \<Rightarrow> quadtree \<Rightarrow> (bool \<times> quadtree) option" where
  "insert_qt item self =
     (if \<not> contains (boundary self) item then Some (False, self)
      else if length (items self) < capacity self then Some (True, append_item item self)
      else
        (let d = (if \<not> divided self then subdivide self else self);
             b = boundary d; c = capacity d; its = items d
         in do {
           (r1, ne) \<leftarrow> insert_qt item (northeast d);
           if r1 then Some (True, Divided b c its ne (northwest d) (southeast d) (southwest d))
           else do {
             (r2, nw) \<leftarrow> insert_qt item (northwest d);
             if r2 then Some (True, Divided b c its ne nw (southeast d) (southwest d))
             else do {
               (r3, se) \<leftarrow> insert_qt item (southeast d);
               if r3 then Some (True, Divided b c its ne nw se (southwest d))
               else do {
                 (r4, sw) \<leftarrow> insert_qt item (southwest d);
                 Some (r4, Divided b c its ne nw se sw)
               }
             }
           }
         }))"

fun query :: "region \<Rightarrow> quadtree \<Rightarrow> positioned list" where
  "query rng (Undivided b c its) =
     (if \<not> intersects b rng then [] else filter (contains rng) its)"
| "query rng (Divided b c its ne nw se sw) =
     (if \<not> intersects b rng then []
      else filter (contains rng) its
           @ query rng ne @ query rng nw @ query rng se @ query rng sw)"

text \<open>\<^verbatim>\<open>min(...)\<close> and \<^verbatim>\<open>max(...)\<close> of a generator of numbers.\<close>

fun min_val :: "real list \<Rightarrow> error + real" where
  "min_val [] = Inl ValueError"
| "min_val (x # xs) = Inr (fold min xs x)"

fun max_val :: "real list \<Rightarrow> error + real" where
  "max_val [] = Inl ValueError"
| "max_val (x # xs) = Inr (fold max xs x)"

text \<open>The bounding box; the four extrema raise on an input with no positioned element.\<close>

definition bounding_box :: "positioned list \<Rightarrow> error + region" where
  "bounding_box ps =
     (case min_val (map item_x ps) of Inl e \<Rightarrow> Inl e | Inr min_x \<Rightarrow>
      case min_val (map item_y ps) of Inl e \<Rightarrow> Inl e | Inr min_y \<Rightarrow>
      case max_val (map item_right ps) of Inl e \<Rightarrow> Inl e | Inr max_x \<Rightarrow>
      case max_val (map item_bottom ps) of Inl e \<Rightarrow> Inl e | Inr max_y \<Rightarrow>
        Inr \<lparr>q_x = min_x, q_y = min_y, q_w = max_x - min_x, q_h = max_y - min_y\<rparr>)"

text \<open>The loop \<^verbatim>\<open>for item in data: qt.insert(item)\<close>: the flag is not looked at.\<close>

fun insert_all :: "positioned list \<Rightarrow> quadtree \<Rightarrow> quadtree option" where
  "insert_all [] qt = Some qt"
| "insert_all (item # rest) qt = do { (r, qt') \<leftarrow> insert_qt item qt; insert_all rest qt' }"

fun first_text :: "positioned list \<Rightarrow> string" where
  "first_text [] = []"
| "first_text (PosText t # xs) = t_text t"
| "first_text (PosRectangle r # xs) = first_text xs"

definition quadtree_label :: "quadtree \<Rightarrow> container \<Rightarrow> string" where
  "quadtree_label qt rect =
     first_text (query \<lparr>q_x = c_x rect, q_y = c_y rect, q_w = c_width rect, q_h = c_height rect\<rparr> qt)"

definition quadtree_record :: "quadtree \<Rightarrow> container list \<Rightarrow> container \<Rightarrow> relational" where
  "quadtree_record qt rectangles rect =
     RelRectangle (c_id rect) (quadtree_label qt rect)
       (map_option c_id (find_parent rect rectangles))"

definition quadtree_approach :: "element list \<Rightarrow> (error + relational list) option" where
  "quadtree_approach data =
     (case bounding_box (positioned_of data) of
        Inl e \<Rightarrow> Some (Inl e)
      | Inr bbox \<Rightarrow> do {
          qt \<leftarrow> insert_all (positioned_of data) (Undivided bbox 4 []);
          let rectangles = sort_by_area (rectangles_of data);
              output = map (quadtree_record qt rectangles) rectangles
          in Some (case map_err (resolve_arrow rectangles) (arrows_of data) of
                     Inl e \<Rightarrow> Inl e
                   | Inr arrow_records \<Rightarrow> Inr (output @ arrow_records))
        })"

section \<open>Predicates of the properties\<close>

text \<open>
  What \<open>find_nearest_rectangle\<close> establishes: the result covers the point and has
  the least area among the rectangles that cover it (edges included), or, when no rectangle
  covers the point, has the least squared distance from its centre to the point.
\<close>

definition resolves_to :: "container list \<Rightarrow> point \<Rightarrow> container \<Rightarrow> bool" where
  "resolves_to rectangles p r \<longleftrightarrow>
     r \<in> set rectangles
     \<and> (if \<exists>c\<in>set rectangles. covers c p
        then covers r p \<and> (\<forall>c\<in>set rectangles. covers c p \<longrightarrow> area r \<le> area c)
        else \<forall>c\<in>set rectangles. dist_sq r p \<le> dist_sq c p)"

text \<open>
  The open interior of a container, as the specification words the containment of a
  point (section 4.5, step 1); the code's test for arrows is \<open>covers\<close>.
\<close>

definition spec_strictly_contains_point :: "container \<Rightarrow> point \<Rightarrow> bool" where
  "spec_strictly_contains_point r p \<longleftrightarrow>
     c_x r < fst p \<and> fst p < c_x r + c_width r
     \<and> c_y r < snd p \<and> snd p < c_y r + c_height r"

text \<open>A text that lies on one of the four edge lines of a rectangle.\<close>

definition on_edge :: "container \<Rightarrow> label \<Rightarrow> bool" where
  "on_edge rect t \<longleftrightarrow>
     t_x t = c_x rect \<or> t_x t = c_x rect + c_width rect
     \<or> t_y t = c_y rect \<or> t_y t = c_y rect + c_height rect"

text \<open>The rectangles that the parent loop may assign: another id, strictly around.\<close>

definition candidate :: "container \<Rightarrow> container \<Rightarrow> bool" where
  "candidate rect p \<longleftrightarrow> c_id p \<noteq> c_id rect \<and> is_rectangle_inside p rect"

text \<open>The parent relation of an output: from a rectangle record's id to its parent id.\<close>

definition parent_rel :: "relational list \<Rightarrow> (string \<times> string) set" where
  "parent_rel out =
     {(r_id rec, p) | rec p. rec \<in> set out \<and> is_RelRectangle rec \<and> r_parent rec = Some p}"

text \<open>
  The trees that \<open>insert_qt\<close> builds from a leaf of positive capacity: every node has
  a positive capacity and the children of a divided node cover its four quadrants.
\<close>

fun qt_ok :: "quadtree \<Rightarrow> bool" where
  "qt_ok (Undivided b c its) \<longleftrightarrow> 0 < c"
| "qt_ok (Divided b c its ne nw se sw) \<longleftrightarrow>
     0 < c
     \<and> boundary ne = ne_region b \<and> boundary nw = nw_region b
     \<and> boundary se = se_region b \<and> boundary sw = sw_region b
     \<and> qt_ok ne \<and> qt_ok nw \<and> qt_ok se \<and> qt_ok sw"

text \<open>The items stored in a tree, and the trees whose nodes hold only items they contain.\<close>

fun all_items :: "quadtree \<Rightarrow> positioned list" where
  "all_items (Undivided b c its) = its"
| "all_items (Divided b c its ne nw se sw) =
     its @ all_items ne @ all_items nw @ all_items se @ all_items sw"

fun items_inside :: "quadtree \<Rightarrow> bool" where
  "items_inside (Undivided b c its) \<longleftrightarrow> (\<forall>i\<in>set its. contains b i)"
| "items_inside (Divided b c its ne nw se sw) \<longleftrightarrow>
     (\<forall>i\<in>set its. contains b i)
     \<and> items_inside ne \<and> items_inside nw \<and> items_inside se \<and> items_inside sw"

text \<open>
  An insertion that returns, with the flag that says whether the root boundary contains
  the item, and leaves a tree of the same kind and boundary that holds the item in
  addition exactly when the flag is true.
\<close>

definition inserts_well :: "positioned \<Rightarrow> quadtree \<Rightarrow> bool" where
  "inserts_well item t \<longleftrightarrow>
     (\<exists>t'. insert_qt item t = Some (contains (boundary t) item, t')
        \<and> qt_ok t' \<and> boundary t' = boundary t
        \<and> mset (all_items t') =
            mset (all_items t) + (if contains (boundary t) item then {#item#} else {#})
        \<and> (items_inside t \<longrightarrow> items_inside t'))"


section \<open>Example inputs\<close>

definition mk_rect :: "string \<Rightarrow> real \<Rightarrow> real \<Rightarrow> real \<Rightarrow> real \<Rightarrow> container" where
  "mk_rect i x y w h = \<lparr>c_id = i, c_x = x, c_y = y, c_width = w, c_height = h\<rparr>"

definition mk_text :: "string \<Rightarrow> real \<Rightarrow> real \<Rightarrow> string \<Rightarrow> label" where
  "mk_text i x y s = \<lparr>t_id = i, t_x = x, t_y = y, t_text = s\<rparr>"

definition mk_arrow :: "string \<Rightarrow> point list \<Rightarrow> connector" where
  "mk_arrow i ps = \<lparr>a_id = i, a_points = ps\<rparr>"

text \<open>A rectangle nested in another.\<close>

definition nested_input :: "element list" where
  "nested_input =
     [Rectangle (mk_rect ''outer'' 0 0 10 10), Rectangle (mk_rect ''inner'' 2 2 4 4)]"

text \<open>
  Two adjacent rectangles that share the edge \<open>x = 4\<close>, and an arrow that starts on
  that edge.
\<close>

definition adjacent_input :: "element list" where
  "adjacent_input =
     [Rectangle (mk_rect ''a'' 0 0 4 4), Rectangle (mk_rect ''b'' 4 0 1 12),
      Arrow (mk_arrow ''ab'' [(4, 1), (2, 2)])]"


text \<open>Two overlapping rectangles, neither inside the other, around a third.\<close>

definition overlap_input :: "element list" where
  "overlap_input =
     [Rectangle (mk_rect ''a'' 0 0 10 10), Rectangle (mk_rect ''b'' 5 5 9 9),
      Rectangle (mk_rect ''c'' 6 6 2 2)]"

text \<open>A text to the right of the only rectangle: it has the largest \<open>x\<close> of the input.\<close>

definition far_text_input :: "element list" where
  "far_text_input =
     [Rectangle (mk_rect ''a'' 0 0 10 10), Text (mk_text ''note'' 20 5 ''N'')]"

text \<open>Two texts in one rectangle, in both orders.\<close>

definition two_labels_input :: "element list" where
  "two_labels_input =
     [Rectangle (mk_rect ''a'' 0 0 10 10), Text (mk_text ''t1'' 1 1 ''first''),
      Text (mk_text ''t2'' 2 2 ''second'')]"

definition two_labels_permuted :: "element list" where
  "two_labels_permuted =
     [Rectangle (mk_rect ''a'' 0 0 10 10), Text (mk_text ''t2'' 2 2 ''second''),
      Text (mk_text ''t1'' 1 1 ''first'')]"

text \<open>A text on the left edge of the only rectangle.\<close>

definition edge_label_input :: "element list" where
  "edge_label_input =
     [Rectangle (mk_rect ''a'' 0 0 10 10), Text (mk_text ''t'' 0 5 ''L'')]"

text \<open>A full leaf of capacity 4 whose four items share one anchor point.\<close>

definition coincident_leaf :: quadtree where
  "coincident_leaf =
     Undivided \<lparr>q_x = 0, q_y = 0, q_w = 8, q_h = 8\<rparr> 4
       [PosText (mk_text ''p1'' 1 1 ''one''), PosText (mk_text ''p2'' 1 1 ''two''),
        PosText (mk_text ''p3'' 1 1 ''three''), PosText (mk_text ''p4'' 1 1 ''four'')]"

text \<open>Six texts at one point inside a rectangle.\<close>

definition coincident_input :: "element list" where
  "coincident_input =
     [Rectangle (mk_rect ''a'' 0 0 8 8),
      Text (mk_text ''p1'' 1 1 ''one''), Text (mk_text ''p2'' 1 1 ''two''),
      Text (mk_text ''p3'' 1 1 ''three''), Text (mk_text ''p4'' 1 1 ''four''),
      Text (mk_text ''p5'' 1 1 ''five''), Text (mk_text ''p6'' 1 1 ''six'')]"

text \<open>
  Two rectangles of equal area that share the edge \<open>x = 2\<close> and an arrow with both
  points on that edge, in both orders of the rectangles.
\<close>

definition tie_input :: "element list" where
  "tie_input =
     [Rectangle (mk_rect ''l'' 0 0 2 2), Rectangle (mk_rect ''r'' 2 0 2 2),
      Arrow (mk_arrow ''e'' [(2, 1), (2, 1)])]"

definition tie_permuted :: "element list" where
  "tie_permuted =
     [Rectangle (mk_rect ''r'' 2 0 2 2), Rectangle (mk_rect ''l'' 0 0 2 2),
      Arrow (mk_arrow ''e'' [(2, 1), (2, 1)])]"

text \<open>A nested pair with one text in the inner rectangle, and a permutation of it.\<close>

definition labelled_input :: "element list" where
  "labelled_input =
     [Rectangle (mk_rect ''outer'' 0 0 10 10), Text (mk_text ''t'' 3 3 ''L''),
      Rectangle (mk_rect ''inner'' 2 2 4 4)]"

definition labelled_permuted :: "element list" where
  "labelled_permuted =
     [Text (mk_text ''t'' 3 3 ''L''), Rectangle (mk_rect ''inner'' 2 2 4 4),
      Rectangle (mk_rect ''outer'' 0 0 10 10)]"

text \<open>
  A rectangle \<open>q\<close> that lies in \<open>p\<close> and shares its left edge, both around
  \<open>c\<close>.
\<close>

definition touching_input :: "element list" where
  "touching_input =
     [Rectangle (mk_rect ''p'' 0 0 10 10), Rectangle (mk_rect ''q'' 0 1 6 6),
      Rectangle (mk_rect ''c'' 2 2 2 2)]"

section \<open>Auxiliary facts\<close>

lemma min_from_mem: "min_from f b xs \<in> set (b # xs)"
  by (induction xs arbitrary: b) auto

lemma min_from_le: "x \<in> set (b # xs) \<Longrightarrow> f (min_from f b xs) \<le> f x"
proof (induction xs arbitrary: b x)
  case Nil
  then show ?case by simp
next
  case (Cons y ys)
  let ?b = "if f y < f b then y else b"
  have base: "f (min_from f ?b ys) \<le> f ?b"
    using Cons.IH [of ?b ?b] by simp
  from Cons.prems consider "x = b" | "x = y" | "x \<in> set ys" by auto
  then show ?case
  proof cases
    case 1
    then show ?thesis using base by (simp split: if_splits)
  next
    case 2
    then show ?thesis using base by (simp split: if_splits)
  next
    case 3
    then show ?thesis using Cons.IH [of x ?b] by simp
  qed
qed

lemma min_key_Inr:
  "xs \<noteq> [] \<Longrightarrow> \<exists>m. min_key f xs = Inr m \<and> m \<in> set xs \<and> (\<forall>x\<in>set xs. f m \<le> f x)"
proof (cases xs)
  case Nil
  then show "xs \<noteq> [] \<Longrightarrow> ?thesis" by simp
next
  case (Cons a as)
  then show ?thesis
    using min_from_mem [of f a as] min_from_le [of _ a as f] by auto
qed

lemma min_key_Nil_iff: "min_key f xs = Inl e \<longleftrightarrow> xs = []"
  by (cases xs; cases e) auto

lemma find_nearest_resolves:
  assumes "rectangles \<noteq> []"
  shows "\<exists>r. find_nearest_rectangle p rectangles = Inr r \<and> resolves_to rectangles p r"
proof (cases "filter (\<lambda>r. covers r p) rectangles = []")
  case True
  then have none: "\<forall>c\<in>set rectangles. \<not> covers c p"
    by (simp add: filter_empty_conv)
  from min_key_Inr [OF assms, of "\<lambda>r. dist_sq r p"] obtain m where
    "min_key (\<lambda>r. dist_sq r p) rectangles = Inr m" "m \<in> set rectangles"
    "\<forall>x\<in>set rectangles. dist_sq m p \<le> dist_sq x p" by blast
  with True none show ?thesis
    by (auto simp: find_nearest_rectangle_def resolves_to_def)
next
  case False
  then have some: "\<exists>c\<in>set rectangles. covers c p"
    by (auto simp: filter_empty_conv)
  from min_key_Inr [OF False, of area] obtain m where
    m: "min_key area (filter (\<lambda>r. covers r p) rectangles) = Inr m"
    "m \<in> set (filter (\<lambda>r. covers r p) rectangles)"
    "\<forall>x\<in>set (filter (\<lambda>r. covers r p) rectangles). area m \<le> area x" by blast
  have "find_nearest_rectangle p rectangles = Inr m"
    using False m(1) by (simp add: find_nearest_rectangle_def)
  moreover have "resolves_to rectangles p m"
    using some m(2,3) by (auto simp: resolves_to_def)
  ultimately show ?thesis by blast
qed

lemma find_nearest_Nil: "find_nearest_rectangle p [] = Inl ValueError"
  by (simp add: find_nearest_rectangle_def)

lemma resolves_to_cong: "set rs = set rs' \<Longrightarrow> resolves_to rs p r = resolves_to rs' p r"
  by (simp add: resolves_to_def)

lemma set_sort_by_area [simp]: "set (sort_by_area rs) = set rs"
  by (simp add: sort_by_area_def)

lemma sort_by_area_Nil_iff [simp]: "sort_by_area rs = [] \<longleftrightarrow> rs = []"
  by (metis set_sort_by_area set_empty)

lemma resolve_arrow_ok:
  assumes "rectangles \<noteq> []" and "a_points a = [s, e]"
  shows "\<exists>f t. resolve_arrow rectangles a = Inr (RelArrow (a_id a) [] (c_id f) (c_id t))
           \<and> resolves_to rectangles s f \<and> resolves_to rectangles e t"
proof -
  obtain f where f: "find_nearest_rectangle s rectangles = Inr f" "resolves_to rectangles s f"
    using find_nearest_resolves [OF assms(1)] by blast
  obtain t where t: "find_nearest_rectangle e rectangles = Inr t" "resolves_to rectangles e t"
    using find_nearest_resolves [OF assms(1)] by blast
  show ?thesis using f t assms(2) by (auto simp: resolve_arrow_def)
qed

lemma map_err_all_Inr:
  "\<forall>x\<in>set xs. \<not> isl (f x) \<Longrightarrow> map_err f xs = Inr (map (\<lambda>x. projr (f x)) xs)"
  by (induction xs) (auto split: sum.splits)

lemma map_err_some_Inl:
  "\<exists>x\<in>set xs. isl (f x) \<Longrightarrow> map_err f xs = Inl ValueError"
proof (induction xs)
  case Nil
  then show ?case by simp
next
  case (Cons a as)
  show ?case
  proof (cases "f a")
    case (Inl e)
    then show ?thesis by (cases e) simp
  next
    case (Inr y)
    then have "\<exists>x\<in>set as. isl (f x)" using Cons.prems by auto
    then show ?thesis using Cons.IH Inr by simp
  qed
qed

lemma length_two: "length xs = 2 \<Longrightarrow> \<exists>s e. xs = [s, e]"
  by (cases xs; cases "tl xs"; auto)

lemma parent_step_non_candidate: "\<not> candidate rect p \<Longrightarrow> parent_step rect acc p = acc"
  by (auto simp: parent_step_def candidate_def)

lemma parent_step_candidate:
  "candidate rect c \<Longrightarrow> (case acc of None \<Rightarrow> True | Some p \<Rightarrow> is_rectangle_inside p c) \<Longrightarrow>
     parent_step rect acc c = Some c"
  by (simp add: parent_step_def candidate_def)

lemma foldl_parent_step_filter:
  "foldl (parent_step rect) acc rs = foldl (parent_step rect) acc (filter (candidate rect) rs)"
  by (induction rs arbitrary: acc) (simp_all add: parent_step_non_candidate)

lemma foldl_parent_step_chain:
  assumes "\<forall>p\<in>set cs. candidate rect p" and "sorted_wrt is_rectangle_inside cs"
  shows "foldl (parent_step rect) None cs = (if cs = [] then None else Some (last cs))"
  using assms
proof (induction cs rule: rev_induct)
  case Nil
  then show ?case by simp
next
  case (snoc c cs)
  have c: "candidate rect c" using snoc.prems by simp
  have prev: "foldl (parent_step rect) None cs = (if cs = [] then None else Some (last cs))"
    using snoc by (simp add: sorted_wrt_append)
  have "cs \<noteq> [] \<Longrightarrow> is_rectangle_inside (last cs) c"
    using snoc.prems(2) by (simp add: sorted_wrt_append)
  then have "parent_step rect (foldl (parent_step rect) None cs) c = Some c"
    using c prev by (intro parent_step_candidate) (simp_all split: option.splits)
  then show ?case by simp
qed

lemma sorted_wrt_refine:
  "distinct xs \<Longrightarrow> sorted_wrt Q xs \<Longrightarrow>
   (\<forall>a\<in>set xs. \<forall>b\<in>set xs. a \<noteq> b \<longrightarrow> Q a b \<longrightarrow> P a b) \<Longrightarrow> sorted_wrt P xs"
  by (induction xs) auto

lemma sorted_wrt_last:
  "sorted_wrt Q xs \<Longrightarrow> x \<in> set xs \<Longrightarrow> x = last xs \<or> Q x (last xs)"
  by (induction xs) auto

lemma sort_by_area_sorted: "sorted_wrt (\<lambda>a b. area b \<le> area a) (sort_by_area rs)"
proof -
  have "sorted (map (\<lambda>r. - area r) (sort_by_area rs))"
    by (simp add: sort_by_area_def)
  then show ?thesis
    by (simp add: sorted_map) 
qed

lemma distinct_sort_by_area: "distinct (sort_by_area rs) = distinct rs"
  by (simp add: sort_by_area_def)

lemma inside_width: "is_rectangle_inside p r \<Longrightarrow> c_width r < c_width p"
  by (simp add: is_rectangle_inside_def)

lemma inside_area:
  assumes "is_rectangle_inside p r" "0 < c_width r" "0 < c_height r"
  shows "area r < area p"
proof -
  have "c_width r < c_width p" "c_height r < c_height p"
    using assms(1) by (simp_all add: is_rectangle_inside_def)
  then show ?thesis
    unfolding area_def using assms(2,3) by (intro mult_strict_mono) simp_all
qed

lemma inside_irrefl: "\<not> is_rectangle_inside r r"
  by (simp add: is_rectangle_inside_def)

lemma find_parent_Some:
  "find_parent rect rs = Some p \<Longrightarrow> p \<in> set rs \<and> candidate rect p"
proof -
  have "foldl (parent_step rect) acc rs = Some p \<Longrightarrow>
          acc = Some p \<or> (p \<in> set rs \<and> candidate rect p)" for acc
    by (induction rs arbitrary: acc) (auto simp: parent_step_def candidate_def split: if_splits)
  then show "find_parent rect rs = Some p \<Longrightarrow> ?thesis"
    unfolding find_parent_def by fastforce
qed

lemma foldl_parent_step_Some: "\<exists>q. foldl (parent_step rect) (Some p) rs = Some q"
  by (induction rs arbitrary: p) (simp_all add: parent_step_def)

lemma find_parent_None_iff:
  "find_parent rect rs = None \<longleftrightarrow> (\<forall>p\<in>set rs. \<not> candidate rect p)"
proof -
  have "foldl (parent_step rect) None rs = None \<longleftrightarrow> (\<forall>p\<in>set rs. \<not> candidate rect p)"
  proof (induction rs)
    case Nil
    then show ?case by simp
  next
    case (Cons a as)
    show ?case
    proof (cases "candidate rect a")
      case True
      then have "parent_step rect None a = Some a" by (simp add: parent_step_def candidate_def)
      then show ?thesis using True foldl_parent_step_Some [of rect a as] by auto
    next
      case False
      then show ?thesis using Cons by (simp add: parent_step_non_candidate)
    qed
  qed
  then show ?thesis by (simp add: find_parent_def)
qed

lemma find_parent_innermost:
  assumes d: "distinct rs"
    and pos: "\<forall>r\<in>set rs. 0 < c_width r \<and> 0 < c_height r"
    and chain: "\<forall>p\<in>set rs. \<forall>q\<in>set rs. candidate rect p \<and> candidate rect q \<and> p \<noteq> q
                  \<longrightarrow> is_rectangle_inside p q \<or> is_rectangle_inside q p"
    and fp: "find_parent rect (sort_by_area rs) = Some p"
  shows "\<forall>q\<in>set rs. candidate rect q \<longrightarrow> area p \<le> area q"
proof -
  let ?cs = "filter (candidate rect) (sort_by_area rs)"
  have dist: "distinct ?cs" using d by (simp add: distinct_sort_by_area)
  have srt: "sorted_wrt (\<lambda>a b. area b \<le> area a) ?cs"
    using sort_by_area_sorted by (rule sorted_wrt_filter)
  have "sorted_wrt is_rectangle_inside ?cs"
  proof (rule sorted_wrt_refine [OF dist srt], intro ballI impI)
    fix a b assume a: "a \<in> set ?cs" and b: "b \<in> set ?cs" and ne: "a \<noteq> b" and le: "area b \<le> area a"
    have "is_rectangle_inside a b \<or> is_rectangle_inside b a"
      using chain a b ne by simp
    moreover have "\<not> is_rectangle_inside b a"
    proof
      assume "is_rectangle_inside b a"
      then have "area a < area b" using inside_area pos a by simp
      then show False using le by simp
    qed
    ultimately show "is_rectangle_inside a b" by blast
  qed
  then have "foldl (parent_step rect) None ?cs = (if ?cs = [] then None else Some (last ?cs))"
    by (intro foldl_parent_step_chain) simp_all
  then have "find_parent rect (sort_by_area rs) = (if ?cs = [] then None else Some (last ?cs))"
    unfolding find_parent_def by (subst foldl_parent_step_filter) simp
  with fp have ne: "?cs \<noteq> []" and p: "p = last ?cs" by (auto split: if_splits)
  show ?thesis
  proof (intro ballI impI)
    fix q assume "q \<in> set rs" "candidate rect q"
    then have "q \<in> set ?cs" by simp
    from sorted_wrt_last [OF srt this] show "area p \<le> area q" using p by auto
  qed
qed

lemma candidate_distinct_ids:
  assumes "distinct (map c_id rs)" "rect \<in> set rs" "p \<in> set rs"
  shows "candidate rect p \<longleftrightarrow> is_rectangle_inside p rect"
proof -
  have "inj_on c_id (set rs)" using assms(1) by (simp add: distinct_map)
  then have "c_id p = c_id rect \<Longrightarrow> p = rect" using assms(2,3) by (auto dest: inj_onD)
  then show ?thesis using inside_irrefl by (auto simp: candidate_def)
qed

lemma quadrant_cases:
  "contains b item \<Longrightarrow>
     contains (ne_region b) item \<or> contains (nw_region b) item
     \<or> contains (se_region b) item \<or> contains (sw_region b) item"
  by (auto simp: contains_def ne_region_def nw_region_def se_region_def sw_region_def field_simps)

lemma insert_outside: "\<not> contains (boundary t) item \<Longrightarrow> insert_qt item t = Some (False, t)"
  by (subst insert_qt.simps) simp

lemma insert_room:
  "contains (boundary t) item \<Longrightarrow> length (items t) < capacity t \<Longrightarrow>
     insert_qt item t = Some (True, append_item item t)"
  by (subst insert_qt.simps) simp

lemma insert_fresh:
  "0 < c \<Longrightarrow> insert_qt item (Undivided b c []) =
     (if contains b item then Some (True, Undivided b c [item]) else Some (False, Undivided b c []))"
  by (simp add: insert_outside insert_room)

lemma inserts_wellD:
  assumes "inserts_well item t" "boundary t = r"
  obtains t' where "insert_qt item t = Some (contains r item, t')" "qt_ok t'" "boundary t' = r"
    "mset (all_items t') = mset (all_items t) + (if contains r item then {#item#} else {#})"
    "items_inside t \<Longrightarrow> items_inside t'"
  using assms unfolding inserts_well_def by auto

lemma insert_full_divided:
  assumes "contains b item" "\<not> length its < c" "0 < c"
    and "boundary ne = ne_region b" "boundary nw = nw_region b"
        "boundary se = se_region b" "boundary sw = sw_region b"
    and "inserts_well item ne" "inserts_well item nw" "inserts_well item se" "inserts_well item sw"
    and "qt_ok ne" "qt_ok nw" "qt_ok se" "qt_ok sw"
  shows "inserts_well item (Divided b c its ne nw se sw)"
proof -
  let ?t = "Divided b c its ne nw se sw"
  from inserts_wellD [OF assms(8) assms(4)] obtain ne' where
    ne': "insert_qt item ne = Some (contains (ne_region b) item, ne')" "qt_ok ne'"
      "boundary ne' = ne_region b"
      "mset (all_items ne') =
         mset (all_items ne) + (if contains (ne_region b) item then {#item#} else {#})"
      "items_inside ne \<Longrightarrow> items_inside ne'" by blast
  from inserts_wellD [OF assms(9) assms(5)] obtain nw' where
    nw': "insert_qt item nw = Some (contains (nw_region b) item, nw')" "qt_ok nw'"
      "boundary nw' = nw_region b"
      "mset (all_items nw') =
         mset (all_items nw) + (if contains (nw_region b) item then {#item#} else {#})"
      "items_inside nw \<Longrightarrow> items_inside nw'" by blast
  from inserts_wellD [OF assms(10) assms(6)] obtain se' where
    se': "insert_qt item se = Some (contains (se_region b) item, se')" "qt_ok se'"
      "boundary se' = se_region b"
      "mset (all_items se') =
         mset (all_items se) + (if contains (se_region b) item then {#item#} else {#})"
      "items_inside se \<Longrightarrow> items_inside se'" by blast
  from inserts_wellD [OF assms(11) assms(7)] obtain sw' where
    sw': "insert_qt item sw = Some (contains (sw_region b) item, sw')" "qt_ok sw'"
      "boundary sw' = sw_region b"
      "mset (all_items sw') =
         mset (all_items sw) + (if contains (sw_region b) item then {#item#} else {#})"
      "items_inside sw \<Longrightarrow> items_inside sw'" by blast
  note q = quadrant_cases [OF assms(1)]
  note geo = assms(3-7) assms(12-15)
  have step: "insert_qt item ?t =
      (if contains (ne_region b) item then Some (True, Divided b c its ne' nw se sw)
       else if contains (nw_region b) item then Some (True, Divided b c its ne' nw' se sw)
       else if contains (se_region b) item then Some (True, Divided b c its ne' nw' se' sw)
       else Some (contains (sw_region b) item, Divided b c its ne' nw' se' sw'))"
    by (subst insert_qt.simps) (simp add: assms(1,2) ne'(1) nw'(1) se'(1) sw'(1))
  consider (ne) "contains (ne_region b) item"
    | (nw) "\<not> contains (ne_region b) item" "contains (nw_region b) item"
    | (se) "\<not> contains (ne_region b) item" "\<not> contains (nw_region b) item"
           "contains (se_region b) item"
    | (sw) "\<not> contains (ne_region b) item" "\<not> contains (nw_region b) item"
           "\<not> contains (se_region b) item" "contains (sw_region b) item"
    using q by blast
  then show ?thesis
  proof cases
    case ne
    have "insert_qt item ?t = Some (contains (boundary ?t) item, Divided b c its ne' nw se sw)"
      using step ne assms(1) by simp
    then show ?thesis
      unfolding inserts_well_def
      using ne geo ne'(2-5) assms(1) by (intro exI [of _ "Divided b c its ne' nw se sw"]) simp
  next
    case nw
    have "insert_qt item ?t = Some (contains (boundary ?t) item, Divided b c its ne' nw' se sw)"
      using step nw assms(1) by simp
    then show ?thesis
      unfolding inserts_well_def
      using nw geo ne'(2-5) nw'(2-5) assms(1)
      by (intro exI [of _ "Divided b c its ne' nw' se sw"]) simp
  next
    case se
    have "insert_qt item ?t = Some (contains (boundary ?t) item, Divided b c its ne' nw' se' sw)"
      using step se assms(1) by simp
    then show ?thesis
      unfolding inserts_well_def
      using se geo ne'(2-5) nw'(2-5) se'(2-5) assms(1)
      by (intro exI [of _ "Divided b c its ne' nw' se' sw"]) simp
  next
    case sw
    have "insert_qt item ?t = Some (contains (boundary ?t) item, Divided b c its ne' nw' se' sw')"
      using step sw assms(1) by simp
    then show ?thesis
      unfolding inserts_well_def
      using sw geo ne'(2-5) nw'(2-5) se'(2-5) sw'(2-5) assms(1)
      by (intro exI [of _ "Divided b c its ne' nw' se' sw'"]) simp
  qed
qed

lemma insert_qt_inserts_well: "qt_ok t \<Longrightarrow> inserts_well item t"
proof (induction t)
  case (Undivided b c its)
  show ?case
  proof (cases "contains b item")
    case False
    then show ?thesis using Undivided by (simp add: inserts_well_def insert_outside)
  next
    case True
    show ?thesis
    proof (cases "length its < c")
      case True
      with \<open>contains b item\<close> Undivided show ?thesis by (simp add: inserts_well_def insert_room)
    next
      case False
      have c: "0 < c" using Undivided by simp
      have g: "inserts_well item (Undivided r c [])" for r
        using c by (simp add: inserts_well_def insert_fresh)
      have "inserts_well item (Divided b c its (Undivided (ne_region b) c []) (Undivided (nw_region b) c [])
               (Undivided (se_region b) c []) (Undivided (sw_region b) c []))"
        by (rule insert_full_divided [OF True False c]) (simp_all add: g c)
      then show ?thesis
        unfolding inserts_well_def
        apply (subst insert_qt.simps)
        apply (subst (asm) insert_qt.simps)
        using True False by (simp add: subdivide_def Let_def)
    qed
  qed
next
  case (Divided b c its ne nw se sw)
  show ?case
  proof (cases "contains b item")
    case False
    then show ?thesis using Divided.prems by (simp add: inserts_well_def insert_outside)
  next
    case True
    show ?thesis
    proof (cases "length its < c")
      case True
      with \<open>contains b item\<close> Divided.prems show ?thesis by (simp add: inserts_well_def insert_room)
    next
      case False
      show ?thesis
        by (rule insert_full_divided [OF True False]) (use Divided in auto)
    qed
  qed
qed

lemma find_removeAll_other: "\<not> P t \<Longrightarrow> find P (removeAll t xs) = find P xs"
  by (induction xs) auto

lemma find_not_sat: "\<not> P t \<Longrightarrow> find P xs \<noteq> Some t"
  by (auto simp: find_Some_iff)

lemma rectangles_of_removeAll_Text: "rectangles_of (removeAll (Text t) data) = rectangles_of data"
  by (induction data rule: rectangles_of.induct) auto

lemma texts_of_removeAll_Text: "texts_of (removeAll (Text t) data) = removeAll t (texts_of data)"
  by (induction data rule: texts_of.induct) auto

lemma convert_arrow_is_arrow: "convert_arrow d a = Inr r \<Longrightarrow> \<not> is_RelRectangle r"
  by (auto simp: convert_arrow_def split: list.splits sum.splits)

lemma convert_items_parent:
  "convert_items d xs = Inr out \<Longrightarrow> \<forall>r\<in>set out. is_RelRectangle r \<longrightarrow> r_parent r = Some []"
  by (induction d xs arbitrary: out rule: convert_items.induct) (auto split: sum.splits dest: convert_arrow_is_arrow)

lemma find_SomeD: "find P xs = Some q \<Longrightarrow> q \<in> set xs \<and> P q"
  by (induction xs) (auto split: if_splits)

lemma map_err_set:
  "map_err f xs = Inr ys \<Longrightarrow> set ys = (\<lambda>x. projr (f x)) ` set xs \<and> (\<forall>x\<in>set xs. \<not> isl (f x))"
proof (induction xs arbitrary: ys)
  case Nil
  then show ?case by simp
next
  case (Cons a as)
  then show ?case by (auto split: sum.splits)
qed

lemma resolve_arrow_is_arrow: "resolve_arrow rs a = Inr r \<Longrightarrow> \<not> is_RelRectangle r"
  by (auto simp: resolve_arrow_def split: list.splits sum.splits)

lemma rule_based_rectangles:
  assumes "rule_based_approach data = Inr out"
  shows "{r \<in> set out. is_RelRectangle r} =
         rect_record (sort_by_area (rectangles_of data)) (texts_of data) ` set (rectangles_of data)"
proof -
  let ?rs = "sort_by_area (rectangles_of data)"
  obtain ars where ars: "map_err (resolve_arrow ?rs) (arrows_of data) = Inr ars"
    and out: "out = map (rect_record ?rs (texts_of data)) ?rs @ ars"
    using assms by (auto simp: rule_based_approach_def Let_def split: sum.splits)
  have "\<not> is_RelRectangle r" if "r \<in> set ars" for r
  proof -
    from map_err_set [OF ars] that obtain a where
      "r = projr (resolve_arrow ?rs a)" "\<not> isl (resolve_arrow ?rs a)" by auto
    then have "resolve_arrow ?rs a = Inr r" by (cases "resolve_arrow ?rs a") auto
    then show ?thesis by (rule resolve_arrow_is_arrow)
  qed
  then show ?thesis unfolding out by (auto simp: rect_record_def)
qed

lemma rule_based_record:
  assumes "rule_based_approach data = Inr out" "c \<in> set (rectangles_of data)"
  shows "rect_record (sort_by_area (rectangles_of data)) (texts_of data) c \<in> set out"
  using rule_based_rectangles [OF assms(1)] assms(2) by blast


lemma inside_text_within: "is_rectangle_inside outer inner \<Longrightarrow> text_within inner t \<Longrightarrow> text_within outer t"
  by (auto simp: is_rectangle_inside_def text_within_def)

lemma insert_all_total:
  "qt_ok t \<Longrightarrow> \<exists>t'. insert_all ps t = Some t' \<and> qt_ok t'"
proof (induction ps arbitrary: t)
  case Nil
  then show ?case by simp
next
  case (Cons p ps)
  from insert_qt_inserts_well [OF Cons.prems, of p] obtain t1 where
    t1: "insert_qt p t = Some (contains (boundary t) p, t1)" "qt_ok t1"
    by (auto simp: inserts_well_def)
  from Cons.IH [OF t1(2)] obtain t' where "insert_all ps t1 = Some t'" "qt_ok t'" by blast
  then show ?case using t1(1) by simp
qed

lemma min_val_Inl_iff: "min_val xs = Inl e \<longleftrightarrow> xs = []"
  by (cases xs; cases e) auto

lemma max_val_Inl_iff: "max_val xs = Inl e \<longleftrightarrow> xs = []"
  by (cases xs; cases e) auto

lemma bounding_box_Inl_iff: "bounding_box ps = Inl e \<longleftrightarrow> ps = []"
proof (cases ps)
  case Nil
  then show ?thesis by (cases e) (simp add: bounding_box_def)
next
  case (Cons p qs)
  then show ?thesis by (simp add: bounding_box_def)
qed

lemma resolve_arrow_isl_iff:
  "isl (resolve_arrow rs a) \<longleftrightarrow> length (a_points a) \<noteq> 2 \<or> rs = []"
proof (cases "length (a_points a) = 2")
  case False
  then show ?thesis
    by (auto simp: resolve_arrow_def split: list.splits)
next
  case True
  then obtain s e where se: "a_points a = [s, e]" using length_two by blast
  show ?thesis
  proof (cases "rs = []")
    case True
    then show ?thesis using se by (simp add: resolve_arrow_def find_nearest_Nil)
  next
    case False
    from resolve_arrow_ok [OF False se] show ?thesis using False se by auto
  qed
qed

lemma map_err_Inl_iff: "map_err f xs = Inl e \<longleftrightarrow> (\<exists>x\<in>set xs. isl (f x))"
proof (cases "\<exists>x\<in>set xs. isl (f x)")
  case True
  then show ?thesis using map_err_some_Inl [of xs f] by (cases e) simp
next
  case False
  then show ?thesis using map_err_all_Inr [of xs f] by simp
qed

lemma quadtree_approach_result:
  "\<exists>r. quadtree_approach data = Some r
       \<and> (isl r \<longleftrightarrow> positioned_of data = []
            \<or> (\<exists>a\<in>set (arrows_of data). length (a_points a) \<noteq> 2 \<or> rectangles_of data = []))"
proof (cases "bounding_box (positioned_of data)")
  case (Inl e)
  then have "positioned_of data = []" by (simp add: bounding_box_Inl_iff)
  then show ?thesis using Inl by (simp add: quadtree_approach_def)
next
  case (Inr bbox)
  then have ne: "positioned_of data \<noteq> []"
    using bounding_box_Inl_iff [of "positioned_of data" ValueError] by auto
  have "qt_ok (Undivided bbox 4 [])" by simp
  from insert_all_total [OF this] obtain qt where
    qt: "insert_all (positioned_of data) (Undivided bbox 4 []) = Some qt" by blast
  let ?rs = "sort_by_area (rectangles_of data)"
  let ?m = "map_err (resolve_arrow ?rs) (arrows_of data)"
  let ?r = "case ?m of Inl e \<Rightarrow> Inl e
            | Inr arrow_records \<Rightarrow> Inr (map (quadtree_record qt ?rs) ?rs @ arrow_records)"
  have run: "quadtree_approach data = Some ?r"
    using Inr qt by (simp add: quadtree_approach_def Let_def)
  have "isl ?r \<longleftrightarrow> isl ?m" by (cases ?m) simp_all
  also have "\<dots> \<longleftrightarrow> (\<exists>a\<in>set (arrows_of data). isl (resolve_arrow ?rs a))"
    using map_err_Inl_iff [of "resolve_arrow ?rs" "arrows_of data" ValueError]
    by (cases ?m) (auto, metis error.exhaust)
  also have "\<dots> \<longleftrightarrow> (\<exists>a\<in>set (arrows_of data). length (a_points a) \<noteq> 2 \<or> rectangles_of data = [])"
    by (simp add: resolve_arrow_isl_iff)
  finally show ?thesis using run ne by simp
qed

lemma count_rectangles_of: "count (mset (rectangles_of xs)) r = count (mset xs) (Rectangle r)"
  by (induction xs rule: rectangles_of.induct) auto

lemma count_texts_of: "count (mset (texts_of xs)) t = count (mset xs) (Text t)"
  by (induction xs rule: texts_of.induct) auto

lemma count_arrows_of: "count (mset (arrows_of xs)) a = count (mset xs) (Arrow a)"
  by (induction xs rule: arrows_of.induct) auto

lemma mset_rectangles_of: "mset xs = mset ys \<Longrightarrow> mset (rectangles_of xs) = mset (rectangles_of ys)"
  by (rule multiset_eqI) (simp add: count_rectangles_of)

lemma mset_texts_of: "mset xs = mset ys \<Longrightarrow> mset (texts_of xs) = mset (texts_of ys)"
  by (rule multiset_eqI) (simp add: count_texts_of)

lemma mset_arrows_of: "mset xs = mset ys \<Longrightarrow> mset (arrows_of xs) = mset (arrows_of ys)"
  by (rule multiset_eqI) (simp add: count_arrows_of)

lemma sort_by_area_permuted:
  assumes "mset rs' = mset rs" and "distinct (map area rs)"
  shows "sort_by_area rs' = sort_by_area rs"
proof -
  have "set rs' = set rs" using assms(1) by (rule mset_eq_setD)
  moreover have "inj_on area (set rs)" using assms(2) by (simp add: distinct_map)
  ultimately have "inj_on (\<lambda>r. - area r) (set rs')"
    by (auto simp: inj_on_def)
  moreover have "mset rs' = mset (sort_key (\<lambda>r. - area r) rs)" using assms(1) by simp
  moreover have "sorted (map (\<lambda>r. - area r) (sort_key (\<lambda>r. - area r) rs))" by simp
  ultimately show ?thesis
    unfolding sort_by_area_def by (intro sort_key_inj_key_eq)
qed

lemma find_label_permuted:
  assumes "set ts' = set ts"
    and "\<forall>t\<in>set ts. \<forall>u\<in>set ts. text_within r t \<and> text_within r u \<longrightarrow> t_text t = t_text u"
  shows "find_label r ts' = find_label r ts"
proof (cases "find (text_within r) ts")
  case None
  then have "\<forall>t\<in>set ts'. \<not> text_within r t" using assms(1) by (simp add: find_None_iff)
  then have "find (text_within r) ts' = None" by (simp add: find_None_iff)
  then show ?thesis using None by (simp add: find_label_def)
next
  case (Some t)
  then have t: "t \<in> set ts" "text_within r t" using find_SomeD by fastforce+
  then have "find (text_within r) ts' \<noteq> None" using assms(1) by (auto simp: find_None_iff)
  then obtain u where u: "find (text_within r) ts' = Some u" by blast
  then have "u \<in> set ts" "text_within r u" using find_SomeD assms(1) by fastforce+
  then have "t_text u = t_text t" using assms(2) t by blast
  then show ?thesis using Some u by (simp add: find_label_def)
qed

lemma map_err_cases:
  "map_err f xs = (if \<exists>x\<in>set xs. isl (f x) then Inl ValueError else Inr (map (\<lambda>x. projr (f x)) xs))"
  using map_err_some_Inl [of xs f] map_err_all_Inr [of xs f] by auto

lemma rule_based_approach_unfold:
  "rule_based_approach data =
     (if \<exists>a\<in>set (arrows_of data). isl (resolve_arrow (sort_by_area (rectangles_of data)) a)
      then Inl ValueError
      else Inr (map (rect_record (sort_by_area (rectangles_of data)) (texts_of data))
                  (sort_by_area (rectangles_of data))
                @ map (\<lambda>a. projr (resolve_arrow (sort_by_area (rectangles_of data)) a))
                    (arrows_of data)))"
  by (simp add: rule_based_approach_def Let_def map_err_cases)

lemma convert_items_rectangles:
  "convert_items d xs = Inr out \<Longrightarrow>
     filter is_RelRectangle out =
       map (\<lambda>r. RelRectangle (c_id r) (find_label r (texts_of d)) (Some [])) (rectangles_of xs)"
proof (induction d xs arbitrary: out rule: convert_items.induct)
  case (1 d)
  then show ?case by simp
next
  case (2 d item rest)
  then show ?case by (auto split: sum.splits)
next
  case (3 d item rest)
  then show ?case by simp
next
  case (4 d item rest)
  then show ?case by (auto split: sum.splits dest: convert_arrow_is_arrow)
qed

lemma convert_arrow_ok:
  assumes "rectangles_of d \<noteq> []" "length (a_points a) = 2"
  shows "\<exists>r. convert_arrow d a = Inr r"
proof -
  obtain s e where se: "a_points a = [s, e]" using assms(2) length_two by blast
  obtain f where f: "min_key (\<lambda>r. dist_sq r s) (rectangles_of d) = Inr f"
    using min_key_Inr [OF assms(1)] by blast
  obtain t where t: "min_key (\<lambda>r. dist_sq r e) (rectangles_of d) = Inr t"
    using min_key_Inr [OF assms(1)] by blast
  show ?thesis using se f t by (simp add: convert_arrow_def)
qed

lemma convert_items_total:
  assumes "\<forall>a\<in>set (arrows_of xs). rectangles_of d \<noteq> [] \<and> length (a_points a) = 2"
  shows "\<exists>out. convert_items d xs = Inr out"
  using assms
proof (induction d xs rule: convert_items.induct)
  case (1 d)
  then show ?case by simp
next
  case (2 d item rest)
  then show ?case by auto
next
  case (3 d item rest)
  then show ?case by simp
next
  case (4 d item rest)
  then obtain r where r: "convert_arrow d item = Inr r" using convert_arrow_ok [of d item] by auto
  have "\<exists>out. convert_items d rest = Inr out" using "4.IH" [OF r] "4.prems" by simp
  then show ?case using r by auto
qed

lemma insert_all_items:
  "qt_ok t \<Longrightarrow>
     \<exists>t'. insert_all ps t = Some t' \<and> qt_ok t' \<and> boundary t' = boundary t
        \<and> mset (all_items t') = mset (all_items t) + mset (filter (contains (boundary t)) ps)
        \<and> (items_inside t \<longrightarrow> items_inside t')"
proof (induction ps arbitrary: t)
  case Nil
  then show ?case by simp
next
  case (Cons p ps)
  from inserts_wellD [OF insert_qt_inserts_well [OF Cons.prems, of p] refl] obtain t1 where
    t1: "insert_qt p t = Some (contains (boundary t) p, t1)" "qt_ok t1" "boundary t1 = boundary t"
      "mset (all_items t1) = mset (all_items t) + (if contains (boundary t) p then {#p#} else {#})"
      "items_inside t \<Longrightarrow> items_inside t1" by blast
  from Cons.IH [OF t1(2)] obtain t' where
    t': "insert_all ps t1 = Some t'" "qt_ok t'" "boundary t' = boundary t1"
      "mset (all_items t') = mset (all_items t1) + mset (filter (contains (boundary t1)) ps)"
      "items_inside t1 \<longrightarrow> items_inside t'" by blast
  have "insert_all (p # ps) t = Some t'" using t1(1) t'(1) by simp
  moreover have "mset (all_items t') =
      mset (all_items t) + mset (filter (contains (boundary t)) (p # ps))"
    using t1(3,4) t'(4) by simp
  ultimately show ?case using t1(2,3,5) t'(2,3,5) by (intro exI [of _ t']) simp
qed

















lemma quadtree_approach_index:
  assumes "bounding_box (positioned_of data) = Inr bbox"
  shows "\<exists>qt. insert_all (positioned_of data) (Undivided bbox 4 []) = Some qt
           \<and> qt_ok qt \<and> items_inside qt
           \<and> mset (all_items qt) = mset (filter (contains bbox) (positioned_of data))
           \<and> quadtree_approach data =
               Some (case map_err (resolve_arrow (sort_by_area (rectangles_of data)))
                            (arrows_of data) of
                       Inl e \<Rightarrow> Inl e
                     | Inr arrow_records \<Rightarrow>
                         Inr (map (quadtree_record qt (sort_by_area (rectangles_of data)))
                                (sort_by_area (rectangles_of data)) @ arrow_records))"
proof -
  have ok: "qt_ok (Undivided bbox 4 [])" by simp
  from insert_all_items [OF ok, of "positioned_of data"] obtain qt where
    qt: "insert_all (positioned_of data) (Undivided bbox 4 []) = Some qt" "qt_ok qt"
      "mset (all_items qt) = mset (filter (contains bbox) (positioned_of data))"
      "items_inside qt" by auto
  have "quadtree_approach data =
               Some (case map_err (resolve_arrow (sort_by_area (rectangles_of data)))
                            (arrows_of data) of
                       Inl e \<Rightarrow> Inl e
                     | Inr arrow_records \<Rightarrow>
                         Inr (map (quadtree_record qt (sort_by_area (rectangles_of data)))
                                (sort_by_area (rectangles_of data)) @ arrow_records))"
    using assms qt(1) by (simp add: quadtree_approach_def Let_def)
  then show ?thesis using qt by blast
qed




section \<open>The resolvers on the example inputs\<close>

lemmas eval_defs = mk_rect_def mk_text_def mk_arrow_def rule_based_approach_def sort_by_area_def
  area_def rect_record_def find_label_def find_parent_def parent_step_def is_rectangle_inside_def
  text_within_def resolve_arrow_def find_nearest_rectangle_def covers_def dist_sq_def

lemma adjacent_run:
  "rule_based_approach adjacent_input =
     Inr [RelRectangle ''a'' [] None, RelRectangle ''b'' [] None, RelArrow ''ab'' [] ''b'' ''a'']"
  by (simp add: adjacent_input_def eval_defs power2_eq_square)


lemma overlap_run:
  "rule_based_approach overlap_input =
     Inr [RelRectangle ''a'' [] None, RelRectangle ''b'' [] None, RelRectangle ''c'' [] (Some ''a'')]"
  by (simp add: overlap_input_def eval_defs)

lemma nested_run:
  "rule_based_approach nested_input =
     Inr [RelRectangle ''outer'' [] None, RelRectangle ''inner'' [] (Some ''outer'')]"
  by (simp add: nested_input_def eval_defs)

lemma nested_ids: "distinct (map c_id (rectangles_of nested_input))"
  by (simp add: nested_input_def mk_rect_def)

lemma far_text_box:
  "bounding_box (positioned_of far_text_input) = Inr \<lparr>q_x = 0, q_y = 0, q_w = 20, q_h = 10\<rparr>"
  by (simp add: far_text_input_def bounding_box_def mk_rect_def mk_text_def)

lemma far_text_index:
  "insert_all (positioned_of far_text_input) (Undivided \<lparr>q_x = 0, q_y = 0, q_w = 20, q_h = 10\<rparr> 4 [])
     = Some (Undivided \<lparr>q_x = 0, q_y = 0, q_w = 20, q_h = 10\<rparr> 4
               [PosRectangle (mk_rect ''a'' 0 0 10 10)])"
  by (simp add: far_text_input_def mk_rect_def mk_text_def contains_def insert_outside insert_room)

lemma far_text_run:
  "quadtree_approach far_text_input = Some (Inr [RelRectangle ''a'' [] None])"
  using far_text_box far_text_index
  by (simp add: quadtree_approach_def)
     (simp add: far_text_input_def eval_defs quadtree_record_def quadtree_label_def
        intersects_def contains_def)

lemma coincident_leaf_ok: "qt_ok coincident_leaf"
  by (simp add: coincident_leaf_def)

lemma coincident_insert:
  "insert_qt (PosText (mk_text ''p5'' 1 1 ''five'')) coincident_leaf =
     Some (True,
       Divided (boundary coincident_leaf) 4 (items coincident_leaf)
         (Undivided \<lparr>q_x = 4, q_y = 0, q_w = 4, q_h = 4\<rparr> 4 [])
         (Undivided \<lparr>q_x = 0, q_y = 0, q_w = 4, q_h = 4\<rparr> 4 [PosText (mk_text ''p5'' 1 1 ''five'')])
         (Undivided \<lparr>q_x = 4, q_y = 4, q_w = 4, q_h = 4\<rparr> 4 [])
         (Undivided \<lparr>q_x = 0, q_y = 4, q_w = 4, q_h = 4\<rparr> 4 []))"
  by (subst insert_qt.simps)
     (simp add: coincident_leaf_def subdivide_def ne_region_def nw_region_def se_region_def
        sw_region_def insert_outside insert_room contains_def mk_text_def)

lemma quadtree_label_on_left_edge:
  "quadtree_approach edge_label_input = Some (Inr [RelRectangle ''a'' ''L'' None])
   \<and> rule_based_approach edge_label_input = Inr [RelRectangle ''a'' [] None]"
proof -
  have b: "bounding_box (positioned_of edge_label_input)
             = Inr \<lparr>q_x = 0, q_y = 0, q_w = 10, q_h = 10\<rparr>"
    by (simp add: edge_label_input_def bounding_box_def mk_rect_def mk_text_def)
  have i: "insert_all (positioned_of edge_label_input)
             (Undivided \<lparr>q_x = 0, q_y = 0, q_w = 10, q_h = 10\<rparr> 4 [])
           = Some (Undivided \<lparr>q_x = 0, q_y = 0, q_w = 10, q_h = 10\<rparr> 4
               [PosRectangle (mk_rect ''a'' 0 0 10 10), PosText (mk_text ''t'' 0 5 ''L'')])"
    by (simp add: edge_label_input_def mk_rect_def mk_text_def contains_def insert_outside
        insert_room)
  have q: "quadtree_approach edge_label_input = Some (Inr [RelRectangle ''a'' ''L'' None])"
    using b i
    by (simp add: quadtree_approach_def)
       (simp add: edge_label_input_def eval_defs quadtree_record_def quadtree_label_def
          intersects_def contains_def)
  have r: "rule_based_approach edge_label_input = Inr [RelRectangle ''a'' [] None]"
    by (simp add: edge_label_input_def eval_defs)
  show ?thesis by (rule conjI [OF q r])
qed

lemma two_labels_run:
  "rule_based_approach two_labels_input = Inr [RelRectangle ''a'' ''first'' None]"
  by (simp add: two_labels_input_def eval_defs)

lemma two_labels_permuted_run:
  "rule_based_approach two_labels_permuted = Inr [RelRectangle ''a'' ''second'' None]"
  by (simp add: two_labels_permuted_def eval_defs)

lemma tie_run:
  "rule_based_approach tie_input =
     Inr [RelRectangle ''l'' [] None, RelRectangle ''r'' [] None, RelArrow ''e'' [] ''l'' ''l'']"
  by (simp add: tie_input_def eval_defs)

lemma tie_permuted_run:
  "rule_based_approach tie_permuted =
     Inr [RelRectangle ''r'' [] None, RelRectangle ''l'' [] None, RelArrow ''e'' [] ''r'' ''r'']"
  by (simp add: tie_permuted_def eval_defs)

lemma touching_run:
  "rule_based_approach touching_input =
     Inr [RelRectangle ''p'' [] None, RelRectangle ''q'' [] None, RelRectangle ''c'' [] (Some ''p'')]"
  by (simp add: touching_input_def eval_defs)


section \<open>The parent loop on nested containers\<close>

text \<open>
  With unique ids and positive sizes, a rectangle whose strictly containing rectangles are
  nested in each other gets as parent the id of one of least area among them, and gets no
  parent exactly when no rectangle strictly contains it.
\<close>

lemma parent_is_innermost:
  assumes ids: "distinct (map c_id (rectangles_of data))"
    and pos: "\<forall>r\<in>set (rectangles_of data). 0 < c_width r \<and> 0 < c_height r"
    and c: "c \<in> set (rectangles_of data)"
    and chain: "\<forall>p\<in>set (rectangles_of data). \<forall>q\<in>set (rectangles_of data).
                  is_rectangle_inside p c \<and> is_rectangle_inside q c \<and> p \<noteq> q
                  \<longrightarrow> is_rectangle_inside p q \<or> is_rectangle_inside q p"
    and run: "rule_based_approach data = Inr out"
  shows "\<exists>l par. RelRectangle (c_id c) l par \<in> set out
           \<and> (par = None \<longleftrightarrow> (\<forall>p\<in>set (rectangles_of data). \<not> is_rectangle_inside p c))
           \<and> (\<forall>i. par = Some i \<longrightarrow>
                 (\<exists>p\<in>set (rectangles_of data). c_id p = i \<and> is_rectangle_inside p c
                    \<and> (\<forall>q\<in>set (rectangles_of data). is_rectangle_inside q c \<longrightarrow> area p \<le> area q)))"
proof -
  let ?R = "rectangles_of data"
  let ?rs = "sort_by_area ?R"
  let ?par = "find_parent c ?rs"
  have cand: "candidate c p \<longleftrightarrow> is_rectangle_inside p c" if "p \<in> set ?R" for p
    using candidate_distinct_ids [OF ids c that] .
  have d: "distinct ?R" using ids by (simp add: distinct_map)
  have chain': "\<forall>p\<in>set ?R. \<forall>q\<in>set ?R. candidate c p \<and> candidate c q \<and> p \<noteq> q
                  \<longrightarrow> is_rectangle_inside p q \<or> is_rectangle_inside q p"
    using chain cand by blast
  have rec: "RelRectangle (c_id c) (find_label c (texts_of data)) (map_option c_id ?par) \<in> set out"
    using rule_based_record [OF run c] by (simp add: rect_record_def)
  have none: "map_option c_id ?par = None \<longleftrightarrow> (\<forall>p\<in>set ?R. \<not> is_rectangle_inside p c)"
    using find_parent_None_iff [of c ?rs] cand by auto
  have some: "\<exists>p\<in>set ?R. c_id p = i \<and> is_rectangle_inside p c
                    \<and> (\<forall>q\<in>set ?R. is_rectangle_inside q c \<longrightarrow> area p \<le> area q)"
    if "map_option c_id ?par = Some i" for i
  proof -
    from that obtain p where p: "?par = Some p" "c_id p = i" by auto
    from find_parent_Some [OF p(1)] have pin: "p \<in> set ?R" "candidate c p" by simp_all
    from find_parent_innermost [OF d pos chain' p(1)]
    have "\<forall>q\<in>set ?R. is_rectangle_inside q c \<longrightarrow> area p \<le> area q" using cand by blast
    then show ?thesis using p(2) pin cand by blast
  qed
  show ?thesis
    by (rule exI [of _ "find_label c (texts_of data)"], rule exI [of _ "map_option c_id ?par"])
       (use rec none some in simp)
qed

section \<open>Properties of the resolvers\<close>

text \<open>
  Claim C1.  On a rectangle nested in another, \<open>convert_to_relative\<close> gives every
  rectangle the parent \<open>''\<close>, while \<open>rule_based_approach\<close> gives the outer
  rectangle no parent and the inner one the outer as parent: the record of the inner
  rectangle differs between the two outputs.  (\<open>quadtree_approach\<close> differs from both
  on a text that lies on the left edge of a rectangle, see
  \<open>quadtree_label_on_left_edge\<close>.)
\<close>

theorem resolvers_disagree:
  "convert_to_relative nested_input =
     Inr [RelRectangle ''outer'' [] (Some []), RelRectangle ''inner'' [] (Some [])]
   \<and> rule_based_approach nested_input =
     Inr [RelRectangle ''outer'' [] None, RelRectangle ''inner'' [] (Some ''outer'')]
   \<and> RelRectangle ''inner'' [] (Some ''outer'')
       \<notin> set [RelRectangle ''outer'' [] (Some []), RelRectangle ''inner'' [] (Some [])]"
proof -
  have a: "convert_to_relative nested_input =
     Inr [RelRectangle ''outer'' [] (Some []), RelRectangle ''inner'' [] (Some [])]"
    by (simp add: nested_input_def mk_rect_def convert_to_relative_def find_label_def)
  have b: "rule_based_approach nested_input =
     Inr [RelRectangle ''outer'' [] None, RelRectangle ''inner'' [] (Some ''outer'')]"
    by (simp add: nested_input_def mk_rect_def rule_based_approach_def sort_by_area_def area_def
        rect_record_def find_label_def find_parent_def parent_step_def is_rectangle_inside_def)
  have c: "RelRectangle ''inner'' [] (Some ''outer'')
       \<notin> set [RelRectangle ''outer'' [] (Some []), RelRectangle ''inner'' [] (Some [])]"
    by simp
  show ?thesis by (rule conjI [OF a conjI [OF b c]])
qed

text \<open>
  Claim C2, as the code has it.  When the input has a rectangle and every arrow has two
  points, \<open>rule_based_approach\<close> returns, and each endpoint of each arrow resolves
  to a rectangle that covers it (edges included) with the least area among the rectangles
  that cover it, or, when no rectangle covers it, to a rectangle whose centre has the
  least squared distance to it.
\<close>

theorem endpoint_resolution:
  assumes "rectangles_of data \<noteq> []"
    and "\<forall>a\<in>set (arrows_of data). length (a_points a) = 2"
  shows "\<exists>out. rule_based_approach data = Inr out \<and>
           (\<forall>a\<in>set (arrows_of data). \<exists>s e f t.
               a_points a = [s, e]
               \<and> resolves_to (rectangles_of data) s f \<and> resolves_to (rectangles_of data) e t
               \<and> RelArrow (a_id a) [] (c_id f) (c_id t) \<in> set out)"
proof -
  let ?rs = "sort_by_area (rectangles_of data)"
  let ?f = "resolve_arrow ?rs"
  have ne: "?rs \<noteq> []" using assms(1) by simp
  have each: "\<exists>s e f t. a_points a = [s, e]
       \<and> ?f a = Inr (RelArrow (a_id a) [] (c_id f) (c_id t))
       \<and> resolves_to (rectangles_of data) s f \<and> resolves_to (rectangles_of data) e t"
    if a: "a \<in> set (arrows_of data)" for a
  proof -
    have "length (a_points a) = 2" using assms(2) a by blast
    then obtain s e where se: "a_points a = [s, e]" using length_two by blast
    from resolve_arrow_ok [OF ne se] obtain f t where
      "?f a = Inr (RelArrow (a_id a) [] (c_id f) (c_id t))"
      "resolves_to ?rs s f" "resolves_to ?rs e t" by blast
    moreover have "resolves_to ?rs q r = resolves_to (rectangles_of data) q r" for q r
      by (rule resolves_to_cong) simp
    ultimately show ?thesis using se by blast
  qed
  then have "\<forall>a\<in>set (arrows_of data). \<not> isl (?f a)" by fastforce
  then have m: "map_err ?f (arrows_of data) = Inr (map (\<lambda>a. projr (?f a)) (arrows_of data))"
    by (rule map_err_all_Inr)
  let ?out = "map (rect_record ?rs (texts_of data)) ?rs @ map (\<lambda>a. projr (?f a)) (arrows_of data)"
  have "rule_based_approach data = Inr ?out"
    using m by (simp add: rule_based_approach_def Let_def)
  moreover have "\<exists>s e f t. a_points a = [s, e]
       \<and> resolves_to (rectangles_of data) s f \<and> resolves_to (rectangles_of data) e t
       \<and> RelArrow (a_id a) [] (c_id f) (c_id t) \<in> set ?out"
    if a: "a \<in> set (arrows_of data)" for a
  proof -
    from each [OF a] obtain s e f t where
      h: "a_points a = [s, e]" "?f a = Inr (RelArrow (a_id a) [] (c_id f) (c_id t))"
      "resolves_to (rectangles_of data) s f" "resolves_to (rectangles_of data) e t" by blast
    have "projr (?f a) \<in> set ?out" using a by simp
    then have "RelArrow (a_id a) [] (c_id f) (c_id t) \<in> set ?out" using h(2) by simp
    then show ?thesis using h by blast
  qed
  ultimately show ?thesis by blast
qed

theorem endpoint_resolution_witness:
  "rectangles_of adjacent_input \<noteq> []
   \<and> (\<exists>out. rule_based_approach adjacent_input = Inr out \<and>
           (\<forall>a\<in>set (arrows_of adjacent_input). \<exists>s e f t.
               a_points a = [s, e]
               \<and> resolves_to (rectangles_of adjacent_input) s f
               \<and> resolves_to (rectangles_of adjacent_input) e t
               \<and> RelArrow (a_id a) [] (c_id f) (c_id t) \<in> set out))"
proof -
  have h1: "rectangles_of adjacent_input \<noteq> []"
    by (simp add: adjacent_input_def)
  have h2: "\<forall>a\<in>set (arrows_of adjacent_input). length (a_points a) = 2"
    by (simp add: adjacent_input_def mk_arrow_def)
  show ?thesis by (rule conjI [OF h1 endpoint_resolution [OF h1 h2]])
qed

text \<open>
  Claim C2 as the specification states it fails.  The start point \<open>(4, 1)\<close> of the
  arrow lies on the edge shared by the adjacent rectangles \<open>a\<close> and \<open>b\<close>; the open
  interior of neither contains it and the centre of \<open>a\<close> is the nearer one, yet the
  arrow starts from \<open>b\<close>: both rectangles cover the point and \<open>b\<close> has the smaller
  area.
\<close>

theorem endpoint_on_shared_edge:
  "rule_based_approach adjacent_input =
     Inr [RelRectangle ''a'' [] None, RelRectangle ''b'' [] None, RelArrow ''ab'' [] ''b'' ''a'']
   \<and> \<not> spec_strictly_contains_point (mk_rect ''a'' 0 0 4 4) (4, 1)
   \<and> \<not> spec_strictly_contains_point (mk_rect ''b'' 4 0 1 12) (4, 1)
   \<and> dist_sq (mk_rect ''a'' 0 0 4 4) (4, 1) < dist_sq (mk_rect ''b'' 4 0 1 12) (4, 1)"
proof -
  have a: "\<not> spec_strictly_contains_point (mk_rect ''a'' 0 0 4 4) (4, 1)"
    by (simp add: spec_strictly_contains_point_def mk_rect_def)
  have b: "\<not> spec_strictly_contains_point (mk_rect ''b'' 4 0 1 12) (4, 1)"
    by (simp add: spec_strictly_contains_point_def mk_rect_def)
  have c: "dist_sq (mk_rect ''a'' 0 0 4 4) (4, 1) < dist_sq (mk_rect ''b'' 4 0 1 12) (4, 1)"
    by (simp add: dist_sq_def mk_rect_def power2_eq_square)
  show ?thesis by (rule conjI [OF adjacent_run conjI [OF a conjI [OF b c]]])
qed




text \<open>
  Claim C4.  The parent loop misses the smallest containing rectangle.  On
  \<open>touching_input\<close> the rectangle \<open>q\<close> lies in \<open>p\<close> and shares its left edge;
  both strictly contain \<open>c\<close> and \<open>q\<close> has the smaller area, but the parent of
  \<open>c\<close> is \<open>p\<close>, since \<open>q\<close> is not strictly inside \<open>p\<close>.  On
  \<open>overlap_input\<close> the overlapping \<open>a\<close> and \<open>b\<close> both strictly contain
  \<open>c\<close> and \<open>b\<close> is smaller, but the parent of \<open>c\<close> is \<open>a\<close>.
\<close>

theorem parent_not_smallest:
  "rule_based_approach touching_input =
     Inr [RelRectangle ''p'' [] None, RelRectangle ''q'' [] None, RelRectangle ''c'' [] (Some ''p'')]
   \<and> is_rectangle_inside (mk_rect ''q'' 0 1 6 6) (mk_rect ''c'' 2 2 2 2)
   \<and> area (mk_rect ''q'' 0 1 6 6) < area (mk_rect ''p'' 0 0 10 10)
   \<and> rule_based_approach overlap_input =
     Inr [RelRectangle ''a'' [] None, RelRectangle ''b'' [] None, RelRectangle ''c'' [] (Some ''a'')]
   \<and> is_rectangle_inside (mk_rect ''b'' 5 5 9 9) (mk_rect ''c'' 6 6 2 2)
   \<and> area (mk_rect ''b'' 5 5 9 9) < area (mk_rect ''a'' 0 0 10 10)"
proof -
  have a: "is_rectangle_inside (mk_rect ''q'' 0 1 6 6) (mk_rect ''c'' 2 2 2 2)"
    by (simp add: is_rectangle_inside_def mk_rect_def)
  have b: "area (mk_rect ''q'' 0 1 6 6) < area (mk_rect ''p'' 0 0 10 10)"
    by (simp add: area_def mk_rect_def)
  have c: "is_rectangle_inside (mk_rect ''b'' 5 5 9 9) (mk_rect ''c'' 6 6 2 2)"
    by (simp add: is_rectangle_inside_def mk_rect_def)
  have d: "area (mk_rect ''b'' 5 5 9 9) < area (mk_rect ''a'' 0 0 10 10)"
    by (simp add: area_def mk_rect_def)
  show ?thesis
    by (rule conjI [OF touching_run conjI [OF a conjI [OF b conjI [OF overlap_run conjI [OF c d]]]]])
qed

text \<open>
  Claim C5.  With unique rectangle ids the parent relation of the output of
  \<open>rule_based_approach\<close> is a forest: it has no cycle, and a rectangle has at most one
  parent.
\<close>

theorem parent_forest:
  assumes ids: "distinct (map c_id (rectangles_of data))"
    and run: "rule_based_approach data = Inr out"
  shows "acyclic (parent_rel out) \<and> single_valued (parent_rel out)"
proof -
  let ?R = "rectangles_of data"
  let ?rs = "sort_by_area ?R"
  define wd where "wd i = c_width (the (find (\<lambda>r. c_id r = i) ?R))" for i
  have inj: "inj_on c_id (set ?R)" using ids by (simp add: distinct_map)
  have wd: "wd (c_id r) = c_width r" if "r \<in> set ?R" for r
  proof -
    have "find (\<lambda>x. c_id x = c_id r) ?R \<noteq> None"
      using that by (auto simp: find_None_iff)
    then obtain q where q: "find (\<lambda>x. c_id x = c_id r) ?R = Some q" by blast
    from find_SomeD [OF q] have "q \<in> set ?R" "c_id q = c_id r" by simp_all
    then have "q = r" using inj that by (auto dest: inj_onD)
    then show ?thesis using q by (simp add: wd_def)
  qed
  have edge: "\<exists>r p. a = c_id r \<and> b = c_id p \<and> r \<in> set ?R \<and> p \<in> set ?R
                \<and> find_parent r ?rs = Some p"
    if "(a, b) \<in> parent_rel out" for a b
  proof -
    from that obtain rec where rec: "rec \<in> set out" "is_RelRectangle rec" "r_id rec = a"
      "r_parent rec = Some b" by (auto simp: parent_rel_def)
    then have "rec \<in> rect_record ?rs (texts_of data) ` set ?R"
      using rule_based_rectangles [OF run] by blast
    then obtain r where r: "r \<in> set ?R" "rec = rect_record ?rs (texts_of data) r" by blast
    with rec obtain p where "find_parent r ?rs = Some p" "c_id p = b" "c_id r = a"
      by (auto simp: rect_record_def)
    moreover then have "p \<in> set ?R" using find_parent_Some by fastforce
    ultimately show ?thesis using r(1) by blast
  qed
  have "acyclic (parent_rel out)"
  proof (rule acyclicI_order [where f = "\<lambda>i. - wd i"])
    fix a b assume "(a, b) \<in> parent_rel out"
    from edge [OF this] obtain r p where e: "a = c_id r" "b = c_id p" "r \<in> set ?R" "p \<in> set ?R"
      "find_parent r ?rs = Some p" by blast
    then have "is_rectangle_inside p r" using find_parent_Some by (fastforce simp: candidate_def)
    then have "c_width r < c_width p" by (rule inside_width)
    then show "- wd b < - wd a" using e wd by simp
  qed
  moreover have "single_valued (parent_rel out)"
  proof (rule single_valuedI)
    fix a b b' assume "(a, b) \<in> parent_rel out" "(a, b') \<in> parent_rel out"
    from edge [OF this(1)] edge [OF this(2)] obtain r p r' p' where
      e: "a = c_id r" "b = c_id p" "r \<in> set ?R" "find_parent r ?rs = Some p"
         "a = c_id r'" "b' = c_id p'" "r' \<in> set ?R" "find_parent r' ?rs = Some p'" by blast
    then have "r = r'" using inj by (auto dest: inj_onD)
    then show "b = b'" using e by simp
  qed
  ultimately show ?thesis by blast
qed

theorem parent_forest_witness:
  "distinct (map c_id (rectangles_of nested_input))
   \<and> rule_based_approach nested_input =
       Inr [RelRectangle ''outer'' [] None, RelRectangle ''inner'' [] (Some ''outer'')]
   \<and> acyclic (parent_rel [RelRectangle ''outer'' [] None, RelRectangle ''inner'' [] (Some ''outer'')])
   \<and> single_valued
       (parent_rel [RelRectangle ''outer'' [] None, RelRectangle ''inner'' [] (Some ''outer'')])"
  by (rule conjI [OF nested_ids conjI [OF nested_run parent_forest [OF nested_ids nested_run]]])

text \<open>
  Claim C6, as the code has it.  On a tree of positive capacity \<open>insert_qt\<close> returns
  the flag that says whether the root boundary contains the anchor of the item; the item
  is stored when the flag is true and the stored items are unchanged when it is false.
  \<open>quadtree_approach\<close> never looks at the flag: its index holds exactly the positioned
  elements whose anchors the bounding box contains, the others are left out, and the
  output is built from that index with no error on their account.
\<close>

theorem insert_flag_ignored:
  "(qt_ok t \<longrightarrow>
      (\<exists>t'. insert_qt item t = Some (contains (boundary t) item, t')
         \<and> mset (all_items t') =
             mset (all_items t) + (if contains (boundary t) item then {#item#} else {#})))
   \<and> (bounding_box (positioned_of data) = Inr bbox \<longrightarrow>
        (\<exists>qt. insert_all (positioned_of data) (Undivided bbox 4 []) = Some qt
           \<and> mset (all_items qt) = mset (filter (contains bbox) (positioned_of data))
           \<and> quadtree_approach data =
               Some (case map_err (resolve_arrow (sort_by_area (rectangles_of data)))
                            (arrows_of data) of
                       Inl e \<Rightarrow> Inl e
                     | Inr arrow_records \<Rightarrow>
                         Inr (map (quadtree_record qt (sort_by_area (rectangles_of data)))
                                (sort_by_area (rectangles_of data)) @ arrow_records))))"
proof (intro conjI impI)
  assume "qt_ok t"
  from inserts_wellD [OF insert_qt_inserts_well [OF this, of item] refl]
  show "\<exists>t'. insert_qt item t = Some (contains (boundary t) item, t')
         \<and> mset (all_items t') =
             mset (all_items t) + (if contains (boundary t) item then {#item#} else {#})"
    by blast
next
  assume "bounding_box (positioned_of data) = Inr bbox"
  from quadtree_approach_index [OF this]
  show "\<exists>qt. insert_all (positioned_of data) (Undivided bbox 4 []) = Some qt
           \<and> mset (all_items qt) = mset (filter (contains bbox) (positioned_of data))
           \<and> quadtree_approach data =
               Some (case map_err (resolve_arrow (sort_by_area (rectangles_of data)))
                            (arrows_of data) of
                       Inl e \<Rightarrow> Inl e
                     | Inr arrow_records \<Rightarrow>
                         Inr (map (quadtree_record qt (sort_by_area (rectangles_of data)))
                                (sort_by_area (rectangles_of data)) @ arrow_records))"
    by blast
qed

theorem insert_flag_ignored_witness:
  "qt_ok coincident_leaf
   \<and> (\<exists>t'. insert_qt (PosText (mk_text ''p5'' 1 1 ''five'')) coincident_leaf
          = Some (contains (boundary coincident_leaf) (PosText (mk_text ''p5'' 1 1 ''five'')), t')
        \<and> mset (all_items t') =
            mset (all_items coincident_leaf)
            + (if contains (boundary coincident_leaf) (PosText (mk_text ''p5'' 1 1 ''five''))
               then {#PosText (mk_text ''p5'' 1 1 ''five'')#} else {#}))
   \<and> bounding_box (positioned_of far_text_input) = Inr \<lparr>q_x = 0, q_y = 0, q_w = 20, q_h = 10\<rparr>
   \<and> (\<exists>qt. insert_all (positioned_of far_text_input)
               (Undivided \<lparr>q_x = 0, q_y = 0, q_w = 20, q_h = 10\<rparr> 4 []) = Some qt
           \<and> mset (all_items qt) =
               mset (filter (contains \<lparr>q_x = 0, q_y = 0, q_w = 20, q_h = 10\<rparr>)
                       (positioned_of far_text_input))
           \<and> quadtree_approach far_text_input =
               Some (case map_err (resolve_arrow (sort_by_area (rectangles_of far_text_input)))
                            (arrows_of far_text_input) of
                       Inl e \<Rightarrow> Inl e
                     | Inr arrow_records \<Rightarrow>
                         Inr (map (quadtree_record qt (sort_by_area (rectangles_of far_text_input)))
                                (sort_by_area (rectangles_of far_text_input)) @ arrow_records)))"
proof -
  note th = insert_flag_ignored [of coincident_leaf "PosText (mk_text ''p5'' 1 1 ''five'')"
      far_text_input "\<lparr>q_x = 0, q_y = 0, q_w = 20, q_h = 10\<rparr>"]
  show ?thesis
    by (rule conjI [OF coincident_leaf_ok conjI [OF mp [OF conjunct1 [OF th] coincident_leaf_ok]
          conjI [OF far_text_box mp [OF conjunct2 [OF th] far_text_box]]]])
qed

text \<open>
  Claim C6 as the specification states it fails.  The text \<open>note\<close> has the largest
  \<open>x\<close> of the input, so its anchor is outside the half-open bounding box;
  \<open>insert_qt\<close> returns false for it and \<open>quadtree_approach\<close> returns its output
  all the same, with no error.
\<close>

theorem far_text_dropped_silently:
  "bounding_box (positioned_of far_text_input) = Inr \<lparr>q_x = 0, q_y = 0, q_w = 20, q_h = 10\<rparr>
   \<and> insert_qt (PosText (mk_text ''note'' 20 5 ''N''))
         (Undivided \<lparr>q_x = 0, q_y = 0, q_w = 20, q_h = 10\<rparr> 4
            [PosRectangle (mk_rect ''a'' 0 0 10 10)])
       = Some (False, Undivided \<lparr>q_x = 0, q_y = 0, q_w = 20, q_h = 10\<rparr> 4
            [PosRectangle (mk_rect ''a'' 0 0 10 10)])
   \<and> quadtree_approach far_text_input = Some (Inr [RelRectangle ''a'' [] None])"
proof -
  have i: "insert_qt (PosText (mk_text ''note'' 20 5 ''N''))
         (Undivided \<lparr>q_x = 0, q_y = 0, q_w = 20, q_h = 10\<rparr> 4
            [PosRectangle (mk_rect ''a'' 0 0 10 10)])
       = Some (False, Undivided \<lparr>q_x = 0, q_y = 0, q_w = 20, q_h = 10\<rparr> 4
            [PosRectangle (mk_rect ''a'' 0 0 10 10)])"
    by (simp add: insert_outside contains_def mk_text_def)
  show ?thesis by (rule conjI [OF far_text_box conjI [OF i far_text_run]])
qed

text \<open>
  Claim C7, as the code has it.  When no two rectangles have the same area and the texts
  strictly inside one rectangle all carry the same text, \<open>rule_based_approach\<close>
  returns on a permutation of the input the same error, or the same records as a multiset.
\<close>

theorem permutation_invariance:
  assumes perm: "mset data' = mset data"
    and areas: "distinct (map area (rectangles_of data))"
    and labels: "\<forall>r\<in>set (rectangles_of data). \<forall>t\<in>set (texts_of data). \<forall>u\<in>set (texts_of data).
                   text_within r t \<and> text_within r u \<longrightarrow> t_text t = t_text u"
  shows "map_sum id mset (rule_based_approach data') = map_sum id mset (rule_based_approach data)"
proof -
  let ?rs = "sort_by_area (rectangles_of data)"
  let ?g = "\<lambda>a. projr (resolve_arrow ?rs a)"
  have rs: "sort_by_area (rectangles_of data') = ?rs"
    using mset_rectangles_of [OF perm] areas by (rule sort_by_area_permuted)
  have ts: "set (texts_of data') = set (texts_of data)"
    using mset_texts_of [OF perm] by (rule mset_eq_setD)
  have as: "mset (arrows_of data') = mset (arrows_of data)"
    using perm by (rule mset_arrows_of)
  then have as_set: "set (arrows_of data') = set (arrows_of data)" by (rule mset_eq_setD)
  have recs: "map (rect_record ?rs (texts_of data')) ?rs = map (rect_record ?rs (texts_of data)) ?rs"
  proof (rule map_cong [OF refl])
    fix r assume "r \<in> set ?rs"
    then have "r \<in> set (rectangles_of data)" by simp
    then have "find_label r (texts_of data') = find_label r (texts_of data)"
      using labels by (intro find_label_permuted [OF ts]) blast
    then show "rect_record ?rs (texts_of data') r = rect_record ?rs (texts_of data) r"
      by (simp add: rect_record_def)
  qed
  have arrows: "mset (map ?g (arrows_of data')) = mset (map ?g (arrows_of data))"
    using as by (metis mset_map)
  have out: "mset (map (rect_record ?rs (texts_of data')) ?rs @ map ?g (arrows_of data'))
             = mset (map (rect_record ?rs (texts_of data)) ?rs @ map ?g (arrows_of data))"
    unfolding recs using arrows by (simp only: mset_append)
  show ?thesis
  proof (cases "\<exists>a\<in>set (arrows_of data). isl (resolve_arrow ?rs a)")
    case True
    then show ?thesis
      by (simp add: rule_based_approach_unfold rs as_set)
  next
    case False
    then show ?thesis
      using out by (simp add: rule_based_approach_unfold rs as_set)
  qed
qed

theorem permutation_invariance_witness:
  "mset labelled_permuted = mset labelled_input
   \<and> distinct (map area (rectangles_of labelled_input))
   \<and> map_sum id mset (rule_based_approach labelled_permuted)
       = map_sum id mset (rule_based_approach labelled_input)"
proof -
  have a: "mset labelled_permuted = mset labelled_input"
    by (simp add: labelled_permuted_def labelled_input_def)
  have b: "distinct (map area (rectangles_of labelled_input))"
    by (simp add: labelled_input_def area_def mk_rect_def)
  have c: "\<forall>r\<in>set (rectangles_of labelled_input). \<forall>t\<in>set (texts_of labelled_input).
             \<forall>u\<in>set (texts_of labelled_input).
               text_within r t \<and> text_within r u \<longrightarrow> t_text t = t_text u"
    by (simp add: labelled_input_def)
  show ?thesis by (rule conjI [OF a conjI [OF b permutation_invariance [OF a b c]]])
qed

text \<open>
  Claim C7 as the specification states it fails.  With two texts in one rectangle the label
  is the text that comes first in the input; with two rectangles of equal area that both
  cover an arrow's endpoint the arrow is attached to the one that comes first in the input.
\<close>

theorem order_of_texts_and_ties_matter:
  "mset two_labels_permuted = mset two_labels_input
   \<and> rule_based_approach two_labels_input = Inr [RelRectangle ''a'' ''first'' None]
   \<and> rule_based_approach two_labels_permuted = Inr [RelRectangle ''a'' ''second'' None]
   \<and> mset tie_permuted = mset tie_input
   \<and> rule_based_approach tie_input =
       Inr [RelRectangle ''l'' [] None, RelRectangle ''r'' [] None, RelArrow ''e'' [] ''l'' ''l'']
   \<and> rule_based_approach tie_permuted =
       Inr [RelRectangle ''r'' [] None, RelRectangle ''l'' [] None, RelArrow ''e'' [] ''r'' ''r'']"
proof -
  have a: "mset two_labels_permuted = mset two_labels_input"
    by (simp add: two_labels_permuted_def two_labels_input_def add.commute)
  have b: "mset tie_permuted = mset tie_input"
    by (simp add: tie_permuted_def tie_input_def add.commute)
  show ?thesis
    by (rule conjI [OF a conjI [OF two_labels_run conjI [OF two_labels_permuted_run
          conjI [OF b conjI [OF tie_run tie_permuted_run]]]]])
qed

text \<open>
  Claim C8.  On a tree of positive capacity \<open>insert_qt\<close> returns, whatever the items
  already stored (a full node hands the item to its children, and a fresh child has room
  or does not contain it); and \<open>quadtree_approach\<close>, which builds its tree with
  capacity 4, returns on every input, with a result or with an error.
\<close>

theorem insert_terminates:
  "(qt_ok t \<longrightarrow> (\<exists>r. insert_qt item t = Some r)) \<and> (\<exists>r. quadtree_approach data = Some r)"
proof
  show "qt_ok t \<longrightarrow> (\<exists>r. insert_qt item t = Some r)"
    using insert_qt_inserts_well [of t item] by (auto simp: inserts_well_def)
  show "\<exists>r. quadtree_approach data = Some r"
    using quadtree_approach_result [of data] by blast
qed

theorem insert_terminates_witness:
  "qt_ok coincident_leaf
   \<and> (\<exists>r. insert_qt (PosText (mk_text ''p5'' 1 1 ''five'')) coincident_leaf = Some r)
   \<and> (\<exists>r. quadtree_approach coincident_input = Some r)"
  by (rule conjI [OF coincident_leaf_ok
        conjI [OF mp [OF conjunct1 [OF insert_terminates [of coincident_leaf _ coincident_input]]
                    coincident_leaf_ok]
                  conjunct2 [OF insert_terminates [of coincident_leaf _ coincident_input]]]])

text \<open>
  Claim C9.  \<open>is_rectangle_inside\<close> holds exactly when the four strict inequalities
  hold; and a text on an edge line of a rectangle is not within it, is never the text the
  label loop stops at, and leaves the rectangle's record as it is without that text.
\<close>

theorem strict_containment_and_edge_labels:
  "(is_rectangle_inside outer inner \<longleftrightarrow>
      c_x outer < c_x inner \<and> c_y outer < c_y inner
      \<and> c_x outer + c_width outer > c_x inner + c_width inner
      \<and> c_y outer + c_height outer > c_y inner + c_height inner)
   \<and> (on_edge rect t \<longrightarrow>
        \<not> text_within rect t
        \<and> find (text_within rect) (texts_of data) \<noteq> Some t
        \<and> rect_record rs (texts_of (removeAll (Text t) data)) rect = rect_record rs (texts_of data) rect)"
proof -
  have e: "\<not> text_within rect t" if "on_edge rect t"
    using that by (auto simp: on_edge_def text_within_def)
  show ?thesis
    using e find_not_sat [of "text_within rect" t "texts_of data"]
      find_removeAll_other [of "text_within rect" t "texts_of data"]
    by (auto simp: is_rectangle_inside_def rect_record_def find_label_def texts_of_removeAll_Text)
qed

theorem strict_containment_and_edge_labels_witness:
  "on_edge (mk_rect ''a'' 0 0 10 10) (mk_text ''t'' 0 5 ''L'')
   \<and> (\<not> text_within (mk_rect ''a'' 0 0 10 10) (mk_text ''t'' 0 5 ''L'')
   \<and> find (text_within (mk_rect ''a'' 0 0 10 10)) (texts_of edge_label_input)
       \<noteq> Some (mk_text ''t'' 0 5 ''L'')
   \<and> rect_record [mk_rect ''a'' 0 0 10 10]
        (texts_of (removeAll (Text (mk_text ''t'' 0 5 ''L'')) edge_label_input))
        (mk_rect ''a'' 0 0 10 10)
      = rect_record [mk_rect ''a'' 0 0 10 10] (texts_of edge_label_input)
          (mk_rect ''a'' 0 0 10 10))"
proof -
  have e: "on_edge (mk_rect ''a'' 0 0 10 10) (mk_text ''t'' 0 5 ''L'')"
    by (simp add: on_edge_def mk_rect_def mk_text_def)
  note th = strict_containment_and_edge_labels
      [of "mk_rect ''a'' 0 0 10 10" "mk_rect ''a'' 0 0 10 10" "mk_rect ''a'' 0 0 10 10"
          "mk_text ''t'' 0 5 ''L''" edge_label_input "[mk_rect ''a'' 0 0 10 10]"]
  show ?thesis
    by (rule conjI [OF e mp [OF conjunct2 [OF th] e]])
qed

text \<open>
  Claim C10.  When \<open>convert_to_relative\<close> returns, the rectangle records of its
  output are, in input order, one record for every rectangle of the input, each with the
  empty string as its parent; and it returns whenever every arrow has two points and a
  rectangle to attach to.
\<close>

theorem convert_to_relative_parent_empty:
  "(convert_to_relative data = Inr out \<longrightarrow>
      filter is_RelRectangle out =
        map (\<lambda>r. RelRectangle (c_id r) (find_label r (texts_of data)) (Some []))
          (rectangles_of data)
      \<and> (\<forall>r\<in>set out. is_RelRectangle r \<longrightarrow> r_parent r = Some []))
   \<and> ((\<forall>a\<in>set (arrows_of data). rectangles_of data \<noteq> [] \<and> length (a_points a) = 2) \<longrightarrow>
        (\<exists>out. convert_to_relative data = Inr out))"
  unfolding convert_to_relative_def
  using convert_items_rectangles [of data data out] convert_items_parent [of data data out]
    convert_items_total [of data data]
  by blast

theorem convert_to_relative_parent_empty_witness:
  "convert_to_relative nested_input =
     Inr [RelRectangle ''outer'' [] (Some []), RelRectangle ''inner'' [] (Some [])]
   \<and> filter is_RelRectangle
         [RelRectangle ''outer'' [] (Some []), RelRectangle ''inner'' [] (Some [])]
       = map (\<lambda>r. RelRectangle (c_id r) (find_label r (texts_of nested_input)) (Some []))
           (rectangles_of nested_input)
   \<and> r_parent (RelRectangle ''inner'' [] (Some [])) = Some []
   \<and> (\<exists>out. convert_to_relative nested_input = Inr out)"
proof -
  have run: "convert_to_relative nested_input =
     Inr [RelRectangle ''outer'' [] (Some []), RelRectangle ''inner'' [] (Some [])]"
    by (simp add: nested_input_def mk_rect_def convert_to_relative_def find_label_def)
  have arrows: "\<forall>a\<in>set (arrows_of nested_input).
                  rectangles_of nested_input \<noteq> [] \<and> length (a_points a) = 2"
    by (simp add: nested_input_def)
  note th = convert_to_relative_parent_empty [of nested_input
      "[RelRectangle ''outer'' [] (Some []), RelRectangle ''inner'' [] (Some [])]"]
  note first = mp [OF conjunct1 [OF th] run]
  have p: "r_parent (RelRectangle ''inner'' [] (Some [])) = Some []"
    using conjunct2 [OF first] by simp
  show ?thesis
    by (rule conjI [OF run conjI [OF conjunct1 [OF first]
          conjI [OF p mp [OF conjunct2 [OF th] arrows]]]])
qed

end
